theory Spec2Isabelle
  imports Main "HOL-Library.Sublist" "HOL-Library.Word" "HOL-Library.AList"
begin

section \<open>Constants of transpiler.h\<close>

definition START_OF_STACK :: nat where
  "START_OF_STACK = 9216"

definition RBP :: nat where
  "RBP = 7"

definition RSP :: nat where
  "RSP = 6"

definition PRIV_PREFIX :: string where
  "PRIV_PREFIX = ''privileged-''"

definition LOAD_CYCLES :: string where
  "LOAD_CYCLES = ''30''"

definition STORE_CYCLES :: string where
  "STORE_CYCLES = ''20''"

definition NUMBER_REGISTERS :: nat where
  "NUMBER_REGISTERS = 8"

section \<open>The pieces of the C++ standard library the transpiler calls\<close>

text \<open>
  Everything that ends the run of the transpiler without an output file is a value of
  \<open>error\<close>: an uncaught exception of \<open>std::stoi\<close>, an access the C++ standard leaves
  undefined (an index outside \<open>std::array\<close>, the dereference of \<open>end()\<close>, a
  \<open>static_cast\<close> to a class the node is not), and the early \<open>return\<close> of
  \<open>transpile\<close> on too many parameters.
\<close>

datatype error =
    InvalidArgument
  | OutOfRange
  | OutOfBounds
  | EndIteratorDeref
  | BadCast
  | TooManyParameters

definition and_then :: "error + 'a \<Rightarrow> ('a \<Rightarrow> error + 'b) \<Rightarrow> error + 'b" where
  "and_then m f = (case m of Inl e \<Rightarrow> Inl e | Inr x \<Rightarrow> f x)"

definition digit_char :: "nat \<Rightarrow> char" where
  "digit_char d = ''0123456789'' ! d"

text \<open>\<open>std::to_string\<close> on a non-negative integer: its decimal digits.\<close>

function to_string :: "nat \<Rightarrow> string" where
  "to_string n =
     (if n < 10 then [digit_char n] else to_string (n div 10) @ [digit_char (n mod 10)])"
  by pat_completeness auto
termination
  by (relation "measure (\<lambda>n. n)") auto

declare to_string.simps [simp del]

definition isspace :: "char \<Rightarrow> bool" where
  "isspace c = (c \<in> set [CHR '' '', CHR 0x09, CHR ''\<newline>'', CHR 0x0B, CHR 0x0C, CHR 0x0D])"

definition isdigit :: "char \<Rightarrow> bool" where
  "isdigit c = (c \<in> set ''0123456789'')"

definition digit_val :: "char \<Rightarrow> nat" where
  "digit_val c = of_char c - 48"

definition decimal :: "string \<Rightarrow> nat" where
  "decimal ds = foldl (\<lambda>a c. 10 * a + digit_val c) 0 ds"

text \<open>
  \<open>std::stoi\<close>: leading white space is skipped, one sign is read, then the longest run of
  decimal digits. No digit throws \<open>std::invalid_argument\<close>, a value outside \<open>int\<close>
  throws \<open>std::out_of_range\<close>. The transpiler catches neither.
\<close>

definition stoi :: "string \<Rightarrow> error + int" where
  "stoi str =
     (let s1 = dropWhile isspace str;
          neg = (s1 \<noteq> [] \<and> hd s1 = CHR ''-'');
          s2 = (if s1 \<noteq> [] \<and> (hd s1 = CHR ''-'' \<or> hd s1 = CHR ''+'') then tl s1 else s1);
          ds = takeWhile isdigit s2;
          v = (if neg then - int (decimal ds) else int (decimal ds))
      in if ds = [] then Inl InvalidArgument
         else if v < - 2147483648 \<or> 2147483647 < v then Inl OutOfRange
         else Inr v)"

section \<open>The syntax tree of parser.h\<close>

datatype BinOpType = ADD | SUB | MUL | LT | GT | LE | GE | EQ | NE | ASS

datatype SysCall_Type = OPEN | WRITE | READ | IOCTL

text \<open>
  An \<open>ExprNode\<close> carries its \<open>NodeType\<close> tag; the constructors are the tags the parser
  gives to expressions. \<open>EXPR\<close> is the wrapper node (a parenthesis, or an expression
  used as a statement).
\<close>

datatype ExprNode =
    EXPR ExprNode
  | FUNC_CALL string "ExprNode list"
  | SYS_CALL SysCall_Type "ExprNode list"
  | NUMBER "64 word"
  | IDENTIFIER string
  | BIN_OP ExprNode ExprNode BinOpType

datatype StatementNode =
    SCOPE "StatementNode list"
  | RETURN "ExprNode option"
  | BRANCH ExprNode StatementNode "StatementNode option"
  | EXPR_STATEMENT ExprNode

record FuncDefNode =
  func_identifier :: string
  func_params :: "string list"
  func_scope :: "StatementNode list"

record PrivObjNode =
  priv_identifier :: string
  priv_address :: "16 word"

record ProgramNode =
  privObjNodes :: "PrivObjNode list"
  funcDefNodes :: "FuncDefNode list"

section \<open>The state of the transpiler\<close>

text \<open>
  The four members of \<open>class transpiler\<close>, and with them the \<open>output_string\<close> that every
  method takes by reference. \<open>operator[]\<close> of an \<open>unordered_map\<close> on a missing key gives
  the default value: \<open>false\<close>, or the empty string.
\<close>

record transpiler =
  privilegedObjects :: "string \<rightharpoonup> bool"
  occupiedRegister :: "bool list"
  registers :: "string \<rightharpoonup> string"
  privilegedAddresses :: "string \<rightharpoonup> string"
  output_string :: string

definition is_privileged :: "transpiler \<Rightarrow> string \<Rightarrow> bool" where
  "is_privileged s v = (case privilegedObjects s v of None \<Rightarrow> False | Some b \<Rightarrow> b)"

definition address_of :: "transpiler \<Rightarrow> string \<Rightarrow> string" where
  "address_of s v = (case privilegedAddresses s v of None \<Rightarrow> [] | Some a \<Rightarrow> a)"

definition register_of :: "transpiler \<Rightarrow> string \<Rightarrow> string" where
  "register_of s v = (case registers s v of None \<Rightarrow> [] | Some r \<Rightarrow> r)"

definition emit :: "string \<Rightarrow> transpiler \<Rightarrow> transpiler" where
  "emit t s = s\<lparr>output_string := output_string s @ t\<rparr>"

definition bind_register :: "string \<Rightarrow> string \<Rightarrow> transpiler \<Rightarrow> transpiler" where
  "bind_register v r s = s\<lparr>registers := (registers s)(v \<mapsto> r)\<rparr>"

text \<open>\<open>occupiedRegister[i] = b\<close> for an index the code computes itself.\<close>

definition set_occupied_at :: "nat \<Rightarrow> bool \<Rightarrow> transpiler \<Rightarrow> error + transpiler" where
  "set_occupied_at i b s =
     (if i < NUMBER_REGISTERS
      then Inr (s\<lparr>occupiedRegister := (occupiedRegister s)[i := b]\<rparr>)
      else Inl OutOfBounds)"

text \<open>\<open>occupiedRegister[std::stoi(r)] = b\<close> for a register name \<open>r\<close>.\<close>

definition set_occupied :: "string \<Rightarrow> bool \<Rightarrow> transpiler \<Rightarrow> error + transpiler" where
  "set_occupied r b s =
     (case stoi r of
        Inl e \<Rightarrow> Inl e
      | Inr i \<Rightarrow> if 0 \<le> i then set_occupied_at (nat i) b s else Inl OutOfBounds)"

subsection \<open>\<open>get_free_register\<close>\<close>

text \<open>The loop \<open>for (int i = NUMBER_REGISTERS - 1; i >= 0; i--)\<close>, counting down.\<close>

fun get_free_from :: "nat \<Rightarrow> bool list \<Rightarrow> string" where
  "get_free_from 0 occ = ''Error''"
| "get_free_from (Suc i) occ = (if occ ! i = False then to_string i else get_free_from i occ)"

definition get_free_register :: "transpiler \<Rightarrow> string" where
  "get_free_register s = get_free_from NUMBER_REGISTERS (occupiedRegister s)"

subsection \<open>\<open>push_registers\<close> and \<open>pop_registers\<close>\<close>

text \<open>
  Both take the occupancy array by value and call \<open>get_free_register\<close> on the member;
  \<open>transpile_func_call\<close> passes the member itself, so the two are the same array.
\<close>

definition push_registers :: "transpiler \<Rightarrow> string" where
  "push_registers s =
     (let free_register = get_free_register s in
      ''li '' @ free_register @ '' 1\<newline>'' @
      concat (map (\<lambda>i. if occupiedRegister s ! i
                         then ''store '' @ to_string RSP @ '' '' @ to_string i @ ''\<newline>'' @
                              ''add '' @ to_string RSP @ '' '' @ free_register @ '' '' @ to_string RSP @ ''\<newline>'' @
                              ''add '' @ to_string RBP @ '' '' @ free_register @ '' '' @ to_string RBP @ ''\<newline>''
                         else []) [1..<NUMBER_REGISTERS]) @
      ''store '' @ to_string RSP @ '' '' @ to_string RSP @ ''\<newline>'' @
      ''add '' @ to_string RSP @ '' '' @ free_register @ '' '' @ to_string RSP @ ''\<newline>'' @
      ''store '' @ to_string RSP @ '' '' @ to_string RBP @ ''\<newline>'' @
      ''mul '' @ to_string RSP @ '' '' @ free_register @ '' '' @ to_string RSP @ ''\<newline>'')"

definition pop_registers :: "transpiler \<Rightarrow> string" where
  "pop_registers s =
     (let free_register = get_free_register s in
      ''li '' @ free_register @ '' 1\<newline>'' @
      concat (map (\<lambda>i. if occupiedRegister s ! i
                         then ''load '' @ to_string RSP @ '' '' @ to_string i @ ''\<newline>'' @
                              ''sub '' @ to_string RSP @ '' '' @ free_register @ '' '' @ to_string RSP @ ''\<newline>'' @
                              ''sub '' @ to_string RBP @ '' '' @ free_register @ '' '' @ to_string RBP @ ''\<newline>''
                         else []) (rev [1..<NUMBER_REGISTERS])) @
      ''store '' @ to_string RSP @ '' '' @ to_string RSP @ ''\<newline>'' @
      ''sub '' @ to_string RSP @ '' '' @ free_register @ '' '' @ to_string RSP @ ''\<newline>'' @
      ''load '' @ to_string RSP @ '' '' @ to_string RBP @ ''\<newline>'')"

subsection \<open>\<open>transpile_expr\<close>: the binary operators\<close>

text \<open>\<open>static_cast<parser::IdentifierNode*>(node)->value\<close>.\<close>

definition identifier_value :: "ExprNode \<Rightarrow> error + string" where
  "identifier_value node = (case node of IDENTIFIER v \<Rightarrow> Inr v | _ \<Rightarrow> Inl BadCast)"

text \<open>
  The assignment, after both sides have been transpiled: \<open>lhs_register\<close> and
  \<open>rhs_register\<close> are what \<open>transpile_expr\<close> returned for them.
\<close>

definition transpile_assignment ::
  "ExprNode \<Rightarrow> string \<Rightarrow> string \<Rightarrow> transpiler \<Rightarrow> error + (string \<times> transpiler)" where
  "transpile_assignment lhs lhs_register rhs_register s =
     (if prefix PRIV_PREFIX lhs_register then
        (if prefix PRIV_PREFIX rhs_register then
           (let free_register_rhs = get_free_register s in
            and_then (set_occupied free_register_rhs True s) (\<lambda>s1.
            let s2 = emit (''li '' @ free_register_rhs @ '' '' @ drop (length PRIV_PREFIX) rhs_register @ ''\<newline>'') s1;
                free_register_cycles = get_free_register s2 in
            and_then (set_occupied free_register_cycles True s2) (\<lambda>s3.
            let s4 = emit (''li '' @ free_register_cycles @ '' '' @ LOAD_CYCLES @ ''\<newline>'' @
                           ''request '' @ free_register_rhs @ '' '' @ free_register_cycles @ ''\<newline>'' @
                           ''load '' @ free_register_rhs @ free_register_rhs @ ''\<newline>'') s3;
                free_register_lhs = get_free_register s4 in
            and_then (set_occupied free_register_cycles False s4) (\<lambda>s5.
            let s6 = emit (''li '' @ free_register_lhs @ '' '' @ drop (length PRIV_PREFIX) lhs_register @ ''\<newline>'' @
                           ''li '' @ free_register_cycles @ '' '' @ STORE_CYCLES @ ''\<newline>'' @
                           ''request '' @ free_register_lhs @ '' '' @ free_register_cycles @ ''\<newline>'' @
                           ''store '' @ free_register_lhs @ '' '' @ free_register_rhs @ ''\<newline>'') s5 in
            and_then (identifier_value lhs) (\<lambda>name.
            Inr (free_register_rhs, bind_register name free_register_rhs s6))))))
         else
           (let free_register_lhs = get_free_register s in
            and_then (set_occupied free_register_lhs True s) (\<lambda>s1.
            let s2 = emit (''li '' @ free_register_lhs @ '' '' @ drop (length PRIV_PREFIX) lhs_register @ ''\<newline>'') s1;
                free_register_cycles = get_free_register s2 in
            and_then (set_occupied free_register_lhs False s2) (\<lambda>s3.
            let s4 = emit (''li '' @ free_register_cycles @ '' '' @ STORE_CYCLES @ ''\<newline>'' @
                           ''request '' @ free_register_lhs @ '' '' @ free_register_cycles @ ''\<newline>'' @
                           ''store '' @ free_register_lhs @ '' '' @ rhs_register @ ''\<newline>'') s3 in
            and_then (identifier_value lhs) (\<lambda>name.
            Inr (rhs_register, bind_register name rhs_register s4))))))
      else if prefix PRIV_PREFIX rhs_register then
        (let free_register_rhs = get_free_register s;
             s1 = emit (''li '' @ free_register_rhs @ '' '' @ drop (length PRIV_PREFIX) rhs_register @ ''\<newline>'') s;
             free_register_cycles = get_free_register s1;
             s2 = emit (''li '' @ free_register_cycles @ '' '' @ LOAD_CYCLES @ ''\<newline>'' @
                        ''request '' @ free_register_rhs @ '' '' @ free_register_cycles @ ''\<newline>'' @
                        ''load '' @ free_register_rhs @ lhs_register @ ''\<newline>'') s1
         in Inr (lhs_register, s2))
      else
        (let s1 = emit (''li '' @ lhs_register @ '' 0\<newline>'' @
                        ''add '' @ lhs_register @ '' '' @ rhs_register @ '' '' @ lhs_register @ ''\<newline>'') s
         in and_then (set_occupied rhs_register False s1) (\<lambda>s2. Inr (lhs_register, s2))))"

text \<open>
  The first part of the \<open>default\<close> case, once for each side: a privileged operand is
  requested with the read budget and loaded into a register.
\<close>

definition load_operand ::
  "ExprNode \<Rightarrow> string \<Rightarrow> transpiler \<Rightarrow> error + (string \<times> transpiler)" where
  "load_operand node reg s =
     (if prefix PRIV_PREFIX reg then
        (let free_register = get_free_register s in
         and_then (set_occupied free_register True s) (\<lambda>s1.
         let s2 = emit (''li '' @ free_register @ '' '' @ drop (length PRIV_PREFIX) reg @ ''\<newline>'') s1;
             cycles_register = get_free_register s2 in
         and_then (set_occupied free_register False s2) (\<lambda>s3.
         let s4 = emit (''li '' @ cycles_register @ '' '' @ LOAD_CYCLES @ ''\<newline>'' @
                        ''request '' @ free_register @ '' '' @ cycles_register @ ''\<newline>'' @
                        ''load '' @ free_register @ '' '' @ free_register @ ''\<newline>'') s3 in
         and_then (identifier_value node) (\<lambda>name.
         Inr (free_register, bind_register name free_register s4)))))
      else Inr (reg, s))"

text \<open>One three-register instruction into a fresh register, which is then marked.\<close>

definition emit_into_free ::
  "string \<Rightarrow> string \<Rightarrow> string \<Rightarrow> transpiler \<Rightarrow> error + (string \<times> transpiler)" where
  "emit_into_free opcode a b s =
     (let free_register = get_free_register s;
          s1 = emit (opcode @ '' '' @ a @ '' '' @ b @ '' '' @ free_register @ ''\<newline>'') s
      in and_then (set_occupied free_register True s1) (\<lambda>s2. Inr (free_register, s2)))"

text \<open>The inner \<open>switch\<close> of the \<open>default\<close> case, on operands that are registers.\<close>

definition transpile_operator ::
  "BinOpType \<Rightarrow> string \<Rightarrow> string \<Rightarrow> transpiler \<Rightarrow> error + (string \<times> transpiler)" where
  "transpile_operator op left_reg right_reg s =
     (case op of
        ADD \<Rightarrow> emit_into_free ''add'' left_reg right_reg s
      | SUB \<Rightarrow> emit_into_free ''sub'' left_reg right_reg s
      | MUL \<Rightarrow> emit_into_free ''mul'' left_reg right_reg s
      | LT \<Rightarrow> emit_into_free ''cmpGT'' right_reg left_reg s
      | GT \<Rightarrow> emit_into_free ''cmpGT'' left_reg right_reg s
      | LE \<Rightarrow>
          (let free_register = get_free_register s in
           and_then (set_occupied free_register True s) (\<lambda>s1.
           let s2 = emit (''cmpGT '' @ left_reg @ '' '' @ right_reg @ '' '' @ free_register @ ''\<newline>'') s1;
               free_register_one = get_free_register s2
           in Inr (free_register,
                   emit (''li '' @ free_register_one @ '' 1\<newline>'' @
                         ''sub '' @ free_register @ '' '' @ free_register_one @ '' '' @ free_register @ ''\<newline>'') s2)))
      | GE \<Rightarrow>
          (let free_register = get_free_register s in
           and_then (set_occupied free_register True s) (\<lambda>s1.
           let s2 = emit (''cmpGT '' @ right_reg @ '' '' @ left_reg @ '' '' @ free_register @ ''\<newline>'') s1;
               free_register_one = get_free_register s2
           in Inr (free_register,
                   emit (''li '' @ free_register_one @ '' 1\<newline>'' @
                         ''sub '' @ free_register @ '' '' @ free_register_one @ '' '' @ free_register @ ''\<newline>'') s2)))
      | EQ \<Rightarrow>
          and_then (emit_into_free ''sub'' left_reg right_reg s) (\<lambda>(free_register, s1).
          let free_register_one = get_free_register s1
          in Inr (free_register,
                  emit (''li '' @ free_register_one @ '' 1\<newline>'' @
                        ''cmpGT '' @ free_register_one @ '' '' @ free_register @ '' '' @ free_register @ ''\<newline>'') s1))
      | NE \<Rightarrow> emit_into_free ''sub'' left_reg right_reg s
      | ASS \<Rightarrow> Inr (''Error: Expression type was not found'', s))"

definition transpile_bin_op ::
  "ExprNode \<Rightarrow> ExprNode \<Rightarrow> BinOpType \<Rightarrow> string \<Rightarrow> string \<Rightarrow> transpiler
     \<Rightarrow> error + (string \<times> transpiler)" where
  "transpile_bin_op lhs rhs op lhs_register rhs_register s =
     (if op = ASS then transpile_assignment lhs lhs_register rhs_register s
      else
        and_then (load_operand lhs lhs_register s) (\<lambda>(left_reg, s1).
        and_then (load_operand rhs rhs_register s1) (\<lambda>(right_reg, s2).
        transpile_operator op left_reg right_reg s2)))"

subsection \<open>\<open>transpile_expr\<close>: system calls\<close>

text \<open>
  The branch of the argument loop for an argument register that is already occupied: the
  argument node is cast to an identifier node and looked up with \<open>find\<close>, whose result is
  dereferenced unchecked.
\<close>

definition save_syscall_register :: "nat \<Rightarrow> ExprNode \<Rightarrow> transpiler \<Rightarrow> error + transpiler" where
  "save_syscall_register i arg s =
     and_then (identifier_value arg) (\<lambda>name.
     case registers s name of
       None \<Rightarrow> Inl EndIteratorDeref
     | Some _ \<Rightarrow>
         (let s1 = bind_register name (to_string i) s;
              val = to_string i;
              free_register = get_free_register s1;
              s2 = bind_register val free_register s1
          in Inr (emit (''li '' @ free_register @ '' 0\<newline>'' @
                        ''add '' @ free_register @ '' '' @ to_string i @ '' '' @ free_register @ ''\<newline>'') s2)))"

definition syscall_number :: "SysCall_Type \<Rightarrow> string" where
  "syscall_number sc = (case sc of OPEN \<Rightarrow> ''0'' | WRITE \<Rightarrow> ''1'' | READ \<Rightarrow> ''2'' | IOCTL \<Rightarrow> ''3'')"

text \<open>What follows the argument loop; the last line is appended without a line break.\<close>

definition transpile_syscall_number ::
  "SysCall_Type \<Rightarrow> transpiler \<Rightarrow> error + (string \<times> transpiler)" where
  "transpile_syscall_number sc s =
     (let syscall_num_reg = get_free_register s in
      and_then
        (case sc of
           OPEN \<Rightarrow>
             set_occupied syscall_num_reg True
               (emit (''li '' @ syscall_num_reg @ '' '' @ syscall_number sc @ ''\<newline>'') s)
         | _ \<Rightarrow>
             (let free_register = get_free_register s
              in set_occupied free_register True (emit (''li '' @ free_register @ '' 0\<newline>'') s)))
        (\<lambda>s1. Inr (''0'', emit (''syscall '' @ syscall_number sc) s1)))"

subsection \<open>\<open>transpile_expr\<close> and \<open>transpile_func_call\<close>\<close>

text \<open>
  The two argument loops are functions of the index \<open>i\<close> and the arguments still to do.
  An argument's own code is appended to \<open>output_string\<close> before the line that uses the
  register it returns.
\<close>

fun transpile_expr :: "ExprNode \<Rightarrow> transpiler \<Rightarrow> error + (string \<times> transpiler)"
  and transpile_func_call :: "string \<Rightarrow> ExprNode list \<Rightarrow> transpiler \<Rightarrow> error + (string \<times> transpiler)"
  and transpile_call_args :: "nat \<Rightarrow> ExprNode list \<Rightarrow> transpiler \<Rightarrow> error + transpiler"
  and transpile_syscall_args :: "nat \<Rightarrow> ExprNode list \<Rightarrow> transpiler \<Rightarrow> error + transpiler"
where
  "transpile_expr (EXPR e) s = transpile_expr e s"
| "transpile_expr (FUNC_CALL funcName args) s = transpile_func_call funcName args s"
| "transpile_expr (SYS_CALL sc args) s =
     (case transpile_syscall_args 0 args s of
        Inl e \<Rightarrow> Inl e
      | Inr s1 \<Rightarrow> transpile_syscall_number sc s1)"
| "transpile_expr (NUMBER number) s =
     (let free_register = get_free_register s;
          s1 = emit (''li '' @ free_register @ '' '' @ to_string (unat number) @ ''\<newline>'') s
      in and_then (set_occupied free_register True s1) (\<lambda>s2. Inr (free_register, s2)))"
| "transpile_expr (IDENTIFIER v) s =
     (if is_privileged s v then Inr (PRIV_PREFIX @ address_of s v, s)
      else if register_of s v = [] then
        (let value_register = get_free_register s
         in and_then (set_occupied value_register True s) (\<lambda>s1.
            Inr (value_register, bind_register v value_register s1)))
      else Inr (register_of s v, s))"
| "transpile_expr (BIN_OP lhs rhs op) s =
     (case transpile_expr lhs s of
        Inl e \<Rightarrow> Inl e
      | Inr (lhs_register, s1) \<Rightarrow>
          (case transpile_expr rhs s1 of
             Inl e \<Rightarrow> Inl e
           | Inr (rhs_register, s2) \<Rightarrow> transpile_bin_op lhs rhs op lhs_register rhs_register s2))"
| "transpile_func_call funcName args s =
     (let s1 = emit (push_registers s) s;
          pop_instructions = pop_registers s1
      in case transpile_call_args 0 args s1 of
           Inl e \<Rightarrow> Inl e
         | Inr s2 \<Rightarrow>
             Inr (''0'', emit (''li 0 0\<newline>'' @
                              ''li 1 '' @ funcName @ ''\<newline>'' @
                              ''jmpEqZ 0 1\<newline>'' @
                              pop_instructions) s2))"
| "transpile_call_args i [] s = Inr s"
| "transpile_call_args i (node # args) s =
     (case transpile_expr node s of
        Inl e \<Rightarrow> Inl e
      | Inr (result_register, s1) \<Rightarrow>
          (let s2 = emit (''li '' @ to_string (i + 2) @ '' 0\<newline>'' @
                          ''add '' @ to_string (i + 2) @ result_register @ to_string (i + 2) @ ''\<newline>'') s1
           in case and_then (set_occupied result_register False s2) (set_occupied_at (i + 2) True) of
                Inl e \<Rightarrow> Inl e
              | Inr s3 \<Rightarrow> transpile_call_args (Suc i) args s3))"
| "transpile_syscall_args i [] s = Inr s"
| "transpile_syscall_args i (arg # args) s =
     (if \<not> i < NUMBER_REGISTERS then Inl OutOfBounds
      else
        case (if occupiedRegister s ! i then save_syscall_register i arg s
              else set_occupied_at i True s) of
          Inl e \<Rightarrow> Inl e
        | Inr s1 \<Rightarrow>
            (case transpile_expr arg (emit (''li '' @ to_string i @ '' 0\<newline>'') s1) of
               Inl e \<Rightarrow> Inl e
             | Inr (r, s2) \<Rightarrow>
                 transpile_syscall_args (Suc i) args
                   (emit (''add '' @ to_string i @ '' '' @ r @ '' '' @ to_string i @ ''\<newline>'') s2)))"

section \<open>Statements\<close>

definition transpile_return :: "ExprNode option \<Rightarrow> transpiler \<Rightarrow> error + transpiler" where
  "transpile_return expr s =
     and_then
       (case expr of
          None \<Rightarrow> Inr s
        | Some e \<Rightarrow>
            and_then (transpile_expr e s) (\<lambda>(result_register, s1).
            let s2 = emit (''li 0 0\<newline>'' @
                           ''add '' @ result_register @ '' 0 0\<newline>'' @
                           ''li 1 0\<newline>'') s1
            in and_then (set_occupied result_register False s2) (set_occupied_at 0 True)))
       (\<lambda>s3. Inr (emit ''exit\<newline>'' s3))"

text \<open>
  The \<open>switch (statement->type)\<close> that \<open>transpile_scope\<close> and, twice,
  \<open>transpile_branch\<close> contain. A statement that is an expression node is transpiled only
  when its tag is \<open>EXPR\<close>; under any other tag the code prints
  \<open>Error: unknown statement type\<close> and goes on. (\<open>transpile_branch\<close> also accepts the
  tag \<open>CONDITION\<close>, which the parser gives to no statement.)
\<close>

function (sequential) transpile_statement :: "StatementNode \<Rightarrow> transpiler \<Rightarrow> error + transpiler"
  and transpile_scope :: "StatementNode list \<Rightarrow> transpiler \<Rightarrow> error + transpiler"
  and transpile_branch ::
    "ExprNode \<Rightarrow> StatementNode \<Rightarrow> StatementNode option \<Rightarrow> transpiler \<Rightarrow> error + transpiler"
where
  "transpile_statement (SCOPE statements) s = transpile_scope statements s"
| "transpile_statement (RETURN expr) s = transpile_return expr s"
| "transpile_statement (BRANCH condition statement else_statement) s =
     transpile_branch condition statement else_statement s"
| "transpile_statement (EXPR_STATEMENT e) s =
     (case e of
        EXPR _ \<Rightarrow> (case transpile_expr e s of Inl x \<Rightarrow> Inl x | Inr (_, s1) \<Rightarrow> Inr s1)
      | _ \<Rightarrow> Inr s)"
| "transpile_scope [] s = Inr s"
| "transpile_scope (statement # statements) s =
     (case transpile_statement statement s of
        Inl e \<Rightarrow> Inl e
      | Inr s1 \<Rightarrow> transpile_scope statements s1)"
| "transpile_branch condition statement else_statement s =
     (case transpile_expr condition s of
        Inl e \<Rightarrow> Inl e
      | Inr (reg, s1) \<Rightarrow>
          (let free_register_label = get_free_register s1;
               s2 = emit (''li '' @ free_register_label @ '' ELSE_LABEL\<newline>'' @
                          ''jmpEqZ '' @ reg @ '' '' @ free_register_label @ '' \<newline>'') s1
           in case transpile_statement statement s2 of
                Inl e \<Rightarrow> Inl e
              | Inr s3 \<Rightarrow>
                  (let free_register = get_free_register s3
                   in case set_occupied free_register True s3 of
                        Inl e \<Rightarrow> Inl e
                      | Inr s4 \<Rightarrow>
                          (let free_register_label2 = get_free_register s4
                           in case set_occupied free_register False s4 of
                                Inl e \<Rightarrow> Inl e
                              | Inr s5 \<Rightarrow>
                                  (let s6 = emit (''li '' @ free_register @ '' 0\<newline>'' @
                                                  ''li '' @ free_register_label2 @ '' END_LABEL\<newline>'' @
                                                  ''jmpEqZ '' @ free_register @ '' '' @ free_register_label2 @ '' \<newline>'' @
                                                  ''ELSE_LABEL:'') s5
                                   in case (case else_statement of
                                              None \<Rightarrow> Inr s6
                                            | Some st \<Rightarrow> transpile_statement st s6) of
                                        Inl e \<Rightarrow> Inl e
                                      | Inr s7 \<Rightarrow> set_occupied free_register True (emit ''END_LABEL:'' s7))))))"
  by pat_completeness auto
termination
  by (relation "measure (\<lambda>x. case x of
         Inl (st, s) \<Rightarrow> 2 * size st
       | Inr (Inl (sts, s)) \<Rightarrow> 2 * size_list size sts
       | Inr (Inr (c, st, eo, s)) \<Rightarrow> 2 * (size st + size_option size eo) + 1)") auto

section \<open>\<open>replace_jump_labels\<close>\<close>

text \<open>The lines \<open>std::getline\<close> reads from the stream, one after the other.\<close>

fun getlines :: "string \<Rightarrow> string list" where
  "getlines [] = []"
| "getlines (c # cs) =
     (if c = CHR ''\<newline>'' then [] # getlines cs
      else case getlines cs of [] \<Rightarrow> [[c]] | l # ls \<Rightarrow> (c # l) # ls)"

definition is_word_char :: "char \<Rightarrow> bool" where
  "is_word_char c =
     (c \<in> set ''abcdefghijklmnopqrstuvwxyzABCDEFGHIJKLMNOPQRSTUVWXYZ0123456789_'')"

text \<open>\<open>std::regex_search(line, match, std::regex("^([a-zA-Z0-9_]+):"))\<close> and \<open>match[1]\<close>.\<close>

definition line_label :: "string \<Rightarrow> string option" where
  "line_label line =
     (let w = takeWhile is_word_char line; rest = dropWhile is_word_char line
      in if w \<noteq> [] \<and> rest \<noteq> [] \<and> hd rest = CHR '':'' then Some w else None)"

text \<open>
  The first loop: \<open>labels[match[1].str()] = line_number\<close>, the lines counted from 1. The
  map is kept as an association list in the order of first definition; a label that is
  defined again keeps its place and takes the new line number.
\<close>

fun collect_from :: "nat \<Rightarrow> string list \<Rightarrow> (string \<times> nat) list \<Rightarrow> (string \<times> nat) list" where
  "collect_from line_number [] labels = labels"
| "collect_from line_number (line # lines) labels =
     collect_from (Suc line_number) lines
       (case line_label line of
          None \<Rightarrow> labels
        | Some w \<Rightarrow> AList.update w line_number labels)"

definition collect_labels :: "string \<Rightarrow> (string \<times> nat) list" where
  "collect_labels output = collect_from 1 (getlines output) []"

text \<open>
  The loop \<open>while ((pos = output_string.find(label_str, pos)) != npos)\<close> for the label
  \<open>name\<close>: every occurrence of \<open>name:\<close> found from \<open>pos\<close> on is removed, and the search
  resumes \<open>advance\<close> characters behind the place of the removal. \<open>del\<close> counts the
  characters of a found occurrence still to be removed, \<open>keep\<close> the characters to be
  passed over before the search resumes.
\<close>

fun erase_label :: "string \<Rightarrow> nat \<Rightarrow> nat \<Rightarrow> nat \<Rightarrow> string \<Rightarrow> string" where
  "erase_label name advance del keep [] = []"
| "erase_label name advance (Suc d) keep (c # cs) = erase_label name advance d keep cs"
| "erase_label name advance 0 (Suc k) (c # cs) = c # erase_label name advance 0 k cs"
| "erase_label name advance 0 0 (c # cs) =
     (if prefix (name @ '':'') (c # cs) then erase_label name advance (length name) advance cs
      else c # erase_label name advance 0 0 cs)"

text \<open>
  A match of the regular expression \<open>li\s+(\d+)\s+name\<close> at the head of the text: the
  digits of group 1 and the length of the match. White space and digits are disjoint
  and a label begins with no white space, so the greedy match is the only one.
\<close>

definition match_li :: "string \<Rightarrow> string \<Rightarrow> (string \<times> nat) option" where
  "match_li name text =
     (if prefix ''li'' text then
        (let r0 = drop 2 text;
             ws1 = takeWhile isspace r0; r1 = dropWhile isspace r0;
             ds = takeWhile isdigit r1; r2 = dropWhile isdigit r1;
             ws2 = takeWhile isspace r2; r3 = dropWhile isspace r2
         in if ws1 \<noteq> [] \<and> ds \<noteq> [] \<and> ws2 \<noteq> [] \<and> prefix name r3
            then Some (ds, 2 + length ws1 + length ds + length ws2 + length name)
            else None)
      else None)"

text \<open>
  \<open>std::regex_replace(output_string, jmp_regex, "li $1 " + number)\<close>: the matches are
  taken from left to right without overlap; \<open>skip\<close> counts the characters of the last
  match that are still to be passed.
\<close>

fun regex_replace_li :: "string \<Rightarrow> string \<Rightarrow> nat \<Rightarrow> string \<Rightarrow> string" where
  "regex_replace_li name number skip [] = []"
| "regex_replace_li name number (Suc k) (c # cs) = regex_replace_li name number k cs"
| "regex_replace_li name number 0 (c # cs) =
     (case match_li name (c # cs) of
        Some (ds, len) \<Rightarrow> ''li '' @ ds @ '' '' @ number @ regex_replace_li name number (len - 1) cs
      | None \<Rightarrow> c # regex_replace_li name number 0 cs)"

text \<open>
  The second loop, over the labels in the sequence \<open>labels\<close>. The C++ loop visits the
  entries of an \<open>unordered_map\<close>, in an order the standard leaves open and that depends
  on the library (libstdc++ starts with an entry inserted late). \<open>replace_labels\<close> takes
  the order as its argument, and \<open>replace_jump_labels\<close> passes the order of first
  definition. Two orders can give different texts, for one when a label is the beginning
  of another: with \<open>f\<close> before \<open>foo\<close> the line \<open>li 1 foo\<close> becomes \<open>li 1 1oo\<close>.
\<close>

fun replace_labels :: "(string \<times> nat) list \<Rightarrow> string \<Rightarrow> string" where
  "replace_labels [] output = output"
| "replace_labels ((name, line_number) # labels) output =
     replace_labels labels
       (regex_replace_li name (to_string line_number) 0
          (erase_label name (length (to_string line_number)) 0 0 output))"

definition replace_jump_labels :: "string \<Rightarrow> string" where
  "replace_jump_labels output = replace_labels (collect_labels output) output"

section \<open>\<open>transpile\<close>\<close>

text \<open>
  The parameter loop. \<open>registers[parameter->value] = num_param\<close> assigns an \<open>int\<close> to a
  \<open>std::string\<close>: the string becomes the single character with that code.
\<close>

fun bind_parameters :: "nat \<Rightarrow> string list \<Rightarrow> transpiler \<Rightarrow> error + transpiler" where
  "bind_parameters num_param [] s = Inr s"
| "bind_parameters num_param (parameter # parameters) s =
     (if num_param \<ge> NUMBER_REGISTERS then Inl TooManyParameters
      else case set_occupied_at num_param True (bind_register parameter [char_of num_param] s) of
             Inl e \<Rightarrow> Inl e
           | Inr s1 \<Rightarrow> bind_parameters (Suc num_param) parameters s1)"

definition reset_registers :: "transpiler \<Rightarrow> transpiler" where
  "reset_registers s =
     s\<lparr>occupiedRegister := (replicate NUMBER_REGISTERS False)[7 := True, 6 := True],
       registers := Map.empty\<rparr>"

definition transpile_function :: "FuncDefNode \<Rightarrow> transpiler \<Rightarrow> error + transpiler" where
  "transpile_function funcDefNode s =
     (let funcName = func_identifier funcDefNode;
          s1 = emit (funcName @ '':'') s;
          s2 = (if funcName = ''main''
                then emit (''li '' @ to_string RBP @ '' '' @ to_string START_OF_STACK @ ''\<newline>'' @
                           ''li '' @ to_string RSP @ '' '' @ to_string START_OF_STACK @ ''\<newline>'') s1
                else s1)
      in and_then (bind_parameters 0 (func_params funcDefNode) (reset_registers s2))
           (transpile_scope (func_scope funcDefNode)))"

fun transpile_functions :: "FuncDefNode list \<Rightarrow> transpiler \<Rightarrow> error + transpiler" where
  "transpile_functions [] s = Inr s"
| "transpile_functions (f # fs) s =
     (case transpile_function f s of Inl e \<Rightarrow> Inl e | Inr s1 \<Rightarrow> transpile_functions fs s1)"

fun declare_privileged :: "PrivObjNode list \<Rightarrow> transpiler \<Rightarrow> transpiler" where
  "declare_privileged [] s = s"
| "declare_privileged (p # ps) s =
     declare_privileged ps
       (s\<lparr>privilegedObjects := (privilegedObjects s)(priv_identifier p \<mapsto> True),
          privilegedAddresses :=
            (privilegedAddresses s)(priv_identifier p \<mapsto> to_string (unat (priv_address p)))\<rparr>)"

text \<open>A transpiler object as its constructor leaves it, with an empty \<open>output_string\<close>.\<close>

definition new_transpiler :: transpiler where
  "new_transpiler =
     \<lparr>privilegedObjects = Map.empty,
      occupiedRegister = replicate NUMBER_REGISTERS False,
      registers = Map.empty,
      privilegedAddresses = Map.empty,
      output_string = []\<rparr>"

text \<open>The text \<open>transpile\<close> writes to the output file, or the reason why it writes none.\<close>

definition transpile :: "ProgramNode \<Rightarrow> error + string" where
  "transpile root =
     (case transpile_functions (funcDefNodes root)
             (declare_privileged (privObjNodes root) new_transpiler) of
        Inl e \<Rightarrow> Inl e
      | Inr s \<Rightarrow> Inr (replace_jump_labels (output_string s)))"

section \<open>What the properties speak about\<close>

subsection \<open>Instructions in a text, identifiers in an expression\<close>

text \<open>The lines of a text that begin with \<open>request\<close>.\<close>

definition request_lines :: "string \<Rightarrow> string list" where
  "request_lines text = filter (prefix ''request'') (getlines text)"

text \<open>The expression has an identifier node whose name is a privileged object.\<close>

fun mentions_privileged :: "transpiler \<Rightarrow> ExprNode \<Rightarrow> bool" where
  "mentions_privileged s (EXPR e) = mentions_privileged s e"
| "mentions_privileged s (FUNC_CALL funcName args) = (\<exists>a \<in> set args. mentions_privileged s a)"
| "mentions_privileged s (SYS_CALL sc args) = (\<exists>a \<in> set args. mentions_privileged s a)"
| "mentions_privileged s (NUMBER number) = False"
| "mentions_privileged s (IDENTIFIER v) = is_privileged s v"
| "mentions_privileged s (BIN_OP lhs rhs op) =
     (mentions_privileged s lhs \<or> mentions_privileged s rhs)"

text \<open>The identifiers of the lexer: \<open>[a-zA-Z_][a-zA-Z0-9_]*\<close>.\<close>

definition is_identifier :: "string \<Rightarrow> bool" where
  "is_identifier name = (name \<noteq> [] \<and> \<not> isdigit (hd name) \<and> (\<forall>c \<in> set name. is_word_char c))"

fun lexed_names :: "ExprNode \<Rightarrow> bool" where
  "lexed_names (EXPR e) = lexed_names e"
| "lexed_names (FUNC_CALL funcName args) = (is_identifier funcName \<and> (\<forall>a \<in> set args. lexed_names a))"
| "lexed_names (SYS_CALL sc args) = (\<forall>a \<in> set args. lexed_names a)"
| "lexed_names (NUMBER number) = True"
| "lexed_names (IDENTIFIER v) = is_identifier v"
| "lexed_names (BIN_OP lhs rhs op) = (lexed_names lhs \<and> lexed_names rhs)"

text \<open>
  A register name that is no privileged descriptor and has no line break in it. Every
  name the transpiler stores in \<open>registers\<close> is one: a decimal register number, the text
  \<open>Error\<close> of the allocator, or the one character of a parameter.
\<close>

definition plain_register :: "string \<Rightarrow> bool" where
  "plain_register r = (CHR ''\<newline>'' \<notin> set r \<and> \<not> prefix PRIV_PREFIX r)"

definition plain_registers :: "transpiler \<Rightarrow> bool" where
  "plain_registers s = (\<forall>v r. registers s v = Some r \<longrightarrow> plain_register r)"

text \<open>
  No line of the text begins with the letter \<open>r\<close>; \<open>at_start\<close> says whether the text
  begins at the start of a line.
\<close>

fun no_r_line :: "bool \<Rightarrow> string \<Rightarrow> bool" where
  "no_r_line at_start [] = True"
| "no_r_line at_start (c # cs) =
     (\<not> (at_start \<and> c = CHR ''r'') \<and> no_r_line (c = CHR ''\<newline>'') cs)"

text \<open>What a run of the transpiler may do to the state when it emits no request.\<close>

definition quiet_step :: "transpiler \<Rightarrow> transpiler \<Rightarrow> bool" where
  "quiet_step s s' =
     ((\<exists>emitted. output_string s' = output_string s @ emitted \<and> no_r_line True emitted)
      \<and> privilegedObjects s' = privilegedObjects s
      \<and> plain_registers s')"

subsection \<open>The registers of the machine that runs the output\<close>

text \<open>
  Modelled from the spec: the machine that executes the bytecode is not part of the
  repository. The header comment of lexer.h gives \<open>li\<close>, \<open>add\<close>, \<open>sub\<close> and \<open>mul\<close> on
  64-bit unsigned registers with wrap-around, the first two operands the inputs and the
  third the output; \<open>cmpGT r1 r2 out\<close> is the transpiler's own primitive, by its
  comments 1 when \<open>r1 > r2\<close> and 0 otherwise. Only these five instructions are run;
  on any other line the run stops without a result.
\<close>

type_synonym register_file = "nat \<Rightarrow> 64 word"

definition cmpGT :: "64 word \<Rightarrow> 64 word \<Rightarrow> 64 word" where
  "cmpGT x y = (if y < x then 1 else 0)"

fun fields :: "string \<Rightarrow> string list" where
  "fields [] = [[]]"
| "fields (c # cs) =
     (if c = CHR '' '' then [] # fields cs
      else case fields cs of [] \<Rightarrow> [[c]] | f # fs \<Rightarrow> (c # f) # fs)"

definition register_index :: "string \<Rightarrow> nat option" where
  "register_index r =
     (if r \<noteq> [] \<and> (\<forall>c \<in> set r. isdigit c) \<and> decimal r < NUMBER_REGISTERS
      then Some (decimal r) else None)"

definition immediate :: "string \<Rightarrow> 64 word option" where
  "immediate imm =
     (if imm \<noteq> [] \<and> (\<forall>c \<in> set imm. isdigit c) then Some (of_nat (decimal imm)) else None)"

definition exec_instruction :: "string \<Rightarrow> register_file \<Rightarrow> register_file option" where
  "exec_instruction line regs =
     (case fields line of
        [opcode, r, imm] \<Rightarrow>
          (if opcode = ''li'' then
             (case (register_index r, immediate imm) of
                (Some i, Some v) \<Rightarrow> Some (regs(i := v))
              | _ \<Rightarrow> None)
           else None)
      | [opcode, a, b, c] \<Rightarrow>
          (case (register_index a, register_index b, register_index c) of
             (Some i, Some j, Some k) \<Rightarrow>
               (if opcode = ''add'' then Some (regs(k := regs i + regs j))
                else if opcode = ''sub'' then Some (regs(k := regs i - regs j))
                else if opcode = ''mul'' then Some (regs(k := regs i * regs j))
                else if opcode = ''cmpGT'' then Some (regs(k := cmpGT (regs i) (regs j)))
                else None)
           | _ \<Rightarrow> None)
      | _ \<Rightarrow> None)"

fun exec_lines :: "string list \<Rightarrow> register_file \<Rightarrow> register_file option" where
  "exec_lines [] regs = Some regs"
| "exec_lines (line # lines) regs =
     (case exec_instruction line regs of None \<Rightarrow> None | Some regs' \<Rightarrow> exec_lines lines regs')"

text \<open>
  The value a piece of generated code leaves in the register it names as its result:
  \<open>res\<close> is what the generator returned when started in \<open>s\<close>, the code is what it appended
  to \<open>output_string\<close>, and \<open>regs\<close> are the registers before the code runs.
\<close>

definition result_value ::
  "error + (string \<times> transpiler) \<Rightarrow> transpiler \<Rightarrow> register_file \<Rightarrow> 64 word option" where
  "result_value res s regs =
     (case res of
        Inl _ \<Rightarrow> None
      | Inr (r, s') \<Rightarrow>
          (case register_index r of
             None \<Rightarrow> None
           | Some i \<Rightarrow>
               map_option (\<lambda>regs'. regs' i)
                 (exec_lines (getlines (drop (length (output_string s)) (output_string s'))) regs)))"

subsection \<open>Programs and states the properties are evaluated on\<close>

text \<open>The state at the start of a function body without parameters.\<close>

definition fresh_function_state :: transpiler where
  "fresh_function_state = reset_registers new_transpiler"

text \<open>
  The state after the statements \<open>a; b;\<close> at the start of a function body: \<open>a\<close> lives in
  register 5 and \<open>b\<close> in register 4. With it, registers that hold 5 in both.
\<close>

definition two_variables_state :: transpiler where
  "two_variables_state =
     fresh_function_state
       \<lparr>occupiedRegister := [False, False, False, False, True, True, True, True],
        registers := [''a'' \<mapsto> ''5'', ''b'' \<mapsto> ''4'']\<rparr>"

definition both_hold_five :: register_file where
  "both_hold_five = (\<lambda>r. 0)(5 := 5, 4 := 5)"

text \<open>\<open>// (a,200)  // (b,300)  main() { a = b; }\<close>\<close>

definition both_privileged_program :: ProgramNode where
  "both_privileged_program =
     \<lparr>privObjNodes = [\<lparr>priv_identifier = ''a'', priv_address = 200\<rparr>,
                      \<lparr>priv_identifier = ''b'', priv_address = 300\<rparr>],
      funcDefNodes = [\<lparr>func_identifier = ''main'', func_params = [],
        func_scope = [EXPR_STATEMENT (EXPR (BIN_OP (IDENTIFIER ''a'') (IDENTIFIER ''b'') ASS))]\<rparr>]\<rparr>"

text \<open>\<open>main() { open(4,5); return; }\<close>\<close>

definition open_program :: ProgramNode where
  "open_program =
     \<lparr>privObjNodes = [],
      funcDefNodes = [\<lparr>func_identifier = ''main'', func_params = [],
        func_scope = [EXPR_STATEMENT (EXPR (SYS_CALL OPEN [NUMBER 4, NUMBER 5])),
                      RETURN None]\<rparr>]\<rparr>"

text \<open>
  The last of the valid programs that the header comment of lexer.h lists:
  \<open>// (b,100)  main() { a = 5; if(a == 5) b = 2; else b = 100; return a; }\<close>
\<close>

definition documented_branch_program :: ProgramNode where
  "documented_branch_program =
     \<lparr>privObjNodes = [\<lparr>priv_identifier = ''b'', priv_address = 100\<rparr>],
      funcDefNodes = [\<lparr>func_identifier = ''main'', func_params = [],
        func_scope =
          [EXPR_STATEMENT (EXPR (BIN_OP (IDENTIFIER ''a'') (NUMBER 5) ASS)),
           BRANCH (BIN_OP (IDENTIFIER ''a'') (NUMBER 5) EQ)
             (EXPR_STATEMENT (EXPR (BIN_OP (IDENTIFIER ''b'') (NUMBER 2) ASS)))
             (Some (EXPR_STATEMENT (EXPR (BIN_OP (IDENTIFIER ''b'') (NUMBER 100) ASS)))),
           RETURN (Some (IDENTIFIER ''a''))]\<rparr>]\<rparr>"

text \<open>\<open>// (p,200)  main() { a; b; c; d; e; f; a = p; }\<close>\<close>

definition six_variables_program :: ProgramNode where
  "six_variables_program =
     \<lparr>privObjNodes = [\<lparr>priv_identifier = ''p'', priv_address = 200\<rparr>],
      funcDefNodes = [\<lparr>func_identifier = ''main'', func_params = [],
        func_scope =
          [EXPR_STATEMENT (EXPR (IDENTIFIER ''a'')), EXPR_STATEMENT (EXPR (IDENTIFIER ''b'')),
           EXPR_STATEMENT (EXPR (IDENTIFIER ''c'')), EXPR_STATEMENT (EXPR (IDENTIFIER ''d'')),
           EXPR_STATEMENT (EXPR (IDENTIFIER ''e'')), EXPR_STATEMENT (EXPR (IDENTIFIER ''f'')),
           EXPR_STATEMENT (EXPR (BIN_OP (IDENTIFIER ''a'') (IDENTIFIER ''p'') ASS))]\<rparr>]\<rparr>"

text \<open>\<open>f() { g(); }\<close>, with no function \<open>g\<close>.\<close>

definition undefined_call_program :: ProgramNode where
  "undefined_call_program =
     \<lparr>privObjNodes = [],
      funcDefNodes = [\<lparr>func_identifier = ''f'', func_params = [],
        func_scope = [EXPR_STATEMENT (EXPR (FUNC_CALL ''g'' []))]\<rparr>]\<rparr>"

text \<open>\<open>f() { if (x) return; else return; if (x) return; else return; }\<close>\<close>

definition two_branches_program :: ProgramNode where
  "two_branches_program =
     \<lparr>privObjNodes = [],
      funcDefNodes = [\<lparr>func_identifier = ''f'', func_params = [],
        func_scope =
          [BRANCH (IDENTIFIER ''x'') (RETURN None) (Some (RETURN None)),
           BRANCH (IDENTIFIER ''x'') (RETURN None) (Some (RETURN None))]\<rparr>]\<rparr>"

text \<open>\<open>f() { if (x) return; }\<close>\<close>

definition branch_without_else_program :: ProgramNode where
  "branch_without_else_program =
     \<lparr>privObjNodes = [],
      funcDefNodes = [\<lparr>func_identifier = ''f'', func_params = [],
        func_scope = [BRANCH (IDENTIFIER ''x'') (RETURN None) None]\<rparr>]\<rparr>"

text \<open>\<open>f(x, y) { x + y; }\<close> and \<open>f(x) { return x; }\<close>\<close>

definition parameters_program :: ProgramNode where
  "parameters_program =
     \<lparr>privObjNodes = [],
      funcDefNodes = [\<lparr>func_identifier = ''f'', func_params = [''x'', ''y''],
        func_scope = [EXPR_STATEMENT (EXPR (BIN_OP (IDENTIFIER ''x'') (IDENTIFIER ''y'') ADD))]\<rparr>]\<rparr>"

definition return_parameter_program :: ProgramNode where
  "return_parameter_program =
     \<lparr>privObjNodes = [],
      funcDefNodes = [\<lparr>func_identifier = ''f'', func_params = [''x''],
        func_scope = [RETURN (Some (IDENTIFIER ''x''))]\<rparr>]\<rparr>"

definition nine_parameters_program :: ProgramNode where
  "nine_parameters_program =
     \<lparr>privObjNodes = [],
      funcDefNodes = [\<lparr>func_identifier = ''f'',
        func_params = [''a'', ''b'', ''c'', ''d'', ''e'', ''f'', ''g'', ''h'', ''i''],
        func_scope = []\<rparr>]\<rparr>"

text \<open>
  Three programs that write to the privileged object \<open>x\<close> when few registers are free:
  \<open>// (x,200)  main() { a; b; c; d; x = 1; }\<close>,
  \<open>// (x,200)  // (y,300)  main() { a; b; c; d; x = y; }\<close> and
  \<open>// (x,200)  main() { a; b; c; d; x = g(); }\<close>.
\<close>

definition write_number_program :: ProgramNode where
  "write_number_program =
     \<lparr>privObjNodes = [\<lparr>priv_identifier = ''x'', priv_address = 200\<rparr>],
      funcDefNodes = [\<lparr>func_identifier = ''main'', func_params = [],
        func_scope =
          [EXPR_STATEMENT (EXPR (IDENTIFIER ''a'')), EXPR_STATEMENT (EXPR (IDENTIFIER ''b'')),
           EXPR_STATEMENT (EXPR (IDENTIFIER ''c'')), EXPR_STATEMENT (EXPR (IDENTIFIER ''d'')),
           EXPR_STATEMENT (EXPR (BIN_OP (IDENTIFIER ''x'') (NUMBER 1) ASS))]\<rparr>]\<rparr>"

definition write_privileged_program :: ProgramNode where
  "write_privileged_program =
     \<lparr>privObjNodes = [\<lparr>priv_identifier = ''x'', priv_address = 200\<rparr>,
                      \<lparr>priv_identifier = ''y'', priv_address = 300\<rparr>],
      funcDefNodes = [\<lparr>func_identifier = ''main'', func_params = [],
        func_scope =
          [EXPR_STATEMENT (EXPR (IDENTIFIER ''a'')), EXPR_STATEMENT (EXPR (IDENTIFIER ''b'')),
           EXPR_STATEMENT (EXPR (IDENTIFIER ''c'')), EXPR_STATEMENT (EXPR (IDENTIFIER ''d'')),
           EXPR_STATEMENT (EXPR (BIN_OP (IDENTIFIER ''x'') (IDENTIFIER ''y'') ASS))]\<rparr>]\<rparr>"

definition write_call_result_program :: ProgramNode where
  "write_call_result_program =
     \<lparr>privObjNodes = [\<lparr>priv_identifier = ''x'', priv_address = 200\<rparr>],
      funcDefNodes = [\<lparr>func_identifier = ''main'', func_params = [],
        func_scope =
          [EXPR_STATEMENT (EXPR (IDENTIFIER ''a'')), EXPR_STATEMENT (EXPR (IDENTIFIER ''b'')),
           EXPR_STATEMENT (EXPR (IDENTIFIER ''c'')), EXPR_STATEMENT (EXPR (IDENTIFIER ''d'')),
           EXPR_STATEMENT (EXPR (BIN_OP (IDENTIFIER ''x'') (FUNC_CALL ''g'' []) ASS))]\<rparr>]\<rparr>"

section \<open>Evaluating the library functions\<close>

lemma to_string_digit: "n < 10 \<Longrightarrow> to_string n = [digit_char n]"
  by (simp add: to_string.simps)

lemma to_string_more:
  "10 \<le> n \<Longrightarrow> to_string n = to_string (n div 10) @ [digit_char (n mod 10)]"
  by (subst to_string.simps) simp

lemma to_string_register:
  "to_string 0 = ''0''" "to_string 1 = ''1''" "to_string 2 = ''2''" "to_string 3 = ''3''"
  "to_string 4 = ''4''" "to_string 5 = ''5''" "to_string 6 = ''6''" "to_string 7 = ''7''"
  by (simp_all add: to_string_digit digit_char_def)

lemma stoi_digit:
  "stoi ''0'' = Inr 0" "stoi ''1'' = Inr 1" "stoi ''2'' = Inr 2" "stoi ''3'' = Inr 3"
  "stoi ''4'' = Inr 4" "stoi ''5'' = Inr 5" "stoi ''6'' = Inr 6" "stoi ''7'' = Inr 7"
  by (simp_all add: stoi_def isspace_def isdigit_def decimal_def digit_val_def)

lemma stoi_Error: "stoi ''Error'' = Inl InvalidArgument"
  by (simp add: stoi_def isspace_def isdigit_def)

lemma register_cases:
  "i < NUMBER_REGISTERS \<Longrightarrow> i = 0 \<or> i = 1 \<or> i = 2 \<or> i = 3 \<or> i = 4 \<or> i = 5 \<or> i = 6 \<or> i = 7"
  unfolding NUMBER_REGISTERS_def by arith

lemma stoi_to_string: "i < NUMBER_REGISTERS \<Longrightarrow> stoi (to_string i) = Inr (int i)"
  using register_cases [of i] to_string_register(2) stoi_digit(2)
  by (auto simp: to_string_register stoi_digit)

section \<open>The register allocator\<close>

lemma get_free_from_highest:
  "i < n \<Longrightarrow> \<not> occ ! i \<Longrightarrow> (\<forall>j. i < j \<and> j < n \<longrightarrow> occ ! j)
     \<Longrightarrow> get_free_from n occ = to_string i"
proof (induction n)
  case 0
  then show ?case by simp
next
  case (Suc n)
  show ?case
  proof (cases "i = n")
    case True
    with Suc.prems show ?thesis by simp
  next
    case False
    with Suc.prems have "i < n" and "occ ! n" by auto
    with Suc show ?thesis by simp
  qed
qed

lemma get_free_from_none:
  "(\<forall>j < n. occ ! j) \<Longrightarrow> get_free_from n occ = ''Error''"
  by (induction n) auto

lemma get_free_register_unfold:
  "get_free_register s =
     (let occ = occupiedRegister s in
      if \<not> occ ! 7 then ''7'' else if \<not> occ ! 6 then ''6'' else if \<not> occ ! 5 then ''5''
      else if \<not> occ ! 4 then ''4'' else if \<not> occ ! 3 then ''3'' else if \<not> occ ! 2 then ''2''
      else if \<not> occ ! 1 then ''1'' else if \<not> occ ! 0 then ''0'' else ''Error'')"
  by (simp add: get_free_register_def NUMBER_REGISTERS_def eval_nat_numeral to_string_digit
      digit_char_def)

lemma get_free_register_emit: "get_free_register (emit t s) = get_free_register s"
  by (simp add: get_free_register_def emit_def)

text \<open>
  C10. \<open>get_free_register\<close> returns the name of the highest register that is not marked
  occupied, and it only reads the occupancy array: after the call the array is what it
  was, the register handed out still unmarked. So the next call returns the same
  register. \<open>push_registers\<close> takes its scratch register this way and marks nothing;
  \<open>pop_registers\<close>, called on the state that \<open>push_registers\<close> leaves, takes the same one.
\<close>

theorem get_free_register_highest_free:
  assumes "i < NUMBER_REGISTERS"
    and "\<not> occupiedRegister s ! i"
    and "\<forall>j. i < j \<and> j < NUMBER_REGISTERS \<longrightarrow> occupiedRegister s ! j"
  shows "get_free_register s = to_string i
       \<and> occupiedRegister (emit (push_registers s) s) = occupiedRegister s
       \<and> get_free_register (emit (push_registers s) s) = to_string i
       \<and> prefix (''li '' @ to_string i @ '' 1\<newline>'') (push_registers s)
       \<and> prefix (''li '' @ to_string i @ '' 1\<newline>'') (pop_registers (emit (push_registers s) s))"
proof -
  have free: "get_free_register s = to_string i"
    unfolding get_free_register_def using assms by (rule get_free_from_highest)
  have same: "get_free_register (emit (push_registers s) s) = to_string i"
    by (simp add: get_free_register_emit free)
  have push: "prefix (''li '' @ to_string i @ '' 1\<newline>'') (push_registers s)"
    by (simp add: push_registers_def Let_def free)
  have pop: "prefix (''li '' @ to_string i @ '' 1\<newline>'') (pop_registers (emit (push_registers s) s))"
    by (simp add: pop_registers_def Let_def same)
  show ?thesis
    using free same push pop by (simp add: emit_def)
qed

theorem get_free_register_highest_free_witness:
  "get_free_register (reset_registers new_transpiler) = ''5''
   \<and> get_free_register (emit (push_registers (reset_registers new_transpiler))
        (reset_registers new_transpiler)) = ''5''
   \<and> prefix ''li 5 1\<newline>'' (push_registers (reset_registers new_transpiler))"
proof -
  let ?s = "reset_registers new_transpiler"
  have occ: "occupiedRegister ?s = [False, False, False, False, False, False, True, True]"
    by (simp add: reset_registers_def new_transpiler_def NUMBER_REGISTERS_def numeral_eq_Suc)
  have h1: "5 < NUMBER_REGISTERS"
    by (simp add: NUMBER_REGISTERS_def)
  have h2: "\<not> occupiedRegister ?s ! 5"
    by (simp add: occ)
  have h3: "\<forall>j. 5 < j \<and> j < NUMBER_REGISTERS \<longrightarrow> occupiedRegister ?s ! j"
  proof (intro allI impI)
    fix j :: nat
    assume "5 < j \<and> j < NUMBER_REGISTERS"
    then have "j = 6 \<or> j = 7"
      unfolding NUMBER_REGISTERS_def by arith
    then show "occupiedRegister ?s ! j"
      by (auto simp: occ)
  qed
  show ?thesis
    using get_free_register_highest_free [OF h1 h2 h3] by (simp add: to_string_register)
qed

section \<open>Evaluating the transpiler on a program\<close>

lemma erase_label_numeral:
  "erase_label name advance (numeral k) keep (c # cs) =
     erase_label name advance (pred_numeral k) keep cs"
  "erase_label name advance 0 (numeral k) (c # cs) =
     c # erase_label name advance 0 (pred_numeral k) cs"
  by (simp_all add: numeral_eq_Suc)

lemma regex_replace_li_numeral:
  "regex_replace_li name number (numeral k) (c # cs) =
     regex_replace_li name number (pred_numeral k) cs"
  by (simp add: numeral_eq_Suc)

lemma char_of_parameter:
  "char_of (0::nat) = CHR 0x00" "char_of (Suc 0) = CHR 0x01"
  by (simp_all add: char_of_eq_iff)

lemma saved_registers:
  "[1..<8] = [1, 2, 3, 4, 5, 6, 7]" "[Suc 0..<8] = [1, 2, 3, 4, 5, 6, 7]"
  by (simp_all add: upt_conv_Cons)

lemmas codegen_defs =
  transpile_function_def reset_registers_def new_transpiler_def fresh_function_state_def
  and_then_def Let_def emit_def bind_register_def set_occupied_def set_occupied_at_def
  get_free_register_unfold is_privileged_def address_of_def register_of_def
  transpile_bin_op_def transpile_assignment_def load_operand_def transpile_operator_def
  emit_into_free_def transpile_return_def transpile_syscall_number_def
  save_syscall_register_def syscall_number_def push_registers_def pop_registers_def
  identifier_value_def PRIV_PREFIX_def LOAD_CYCLES_def STORE_CYCLES_def NUMBER_REGISTERS_def
  RSP_def RBP_def START_OF_STACK_def to_string_digit to_string_more digit_char_def
  stoi_digit stoi_Error

lemmas label_defs =
  replace_jump_labels_def collect_labels_def line_label_def is_word_char_def match_li_def
  isspace_def isdigit_def erase_label_numeral regex_replace_li_numeral

section \<open>Assignments to a privileged object\<close>

lemma and_then_Inr: "and_then m f = Inr y \<longleftrightarrow> (\<exists>x. m = Inr x \<and> f x = Inr y)"
  by (cases m) (simp_all add: and_then_def)

lemma get_free_from_cases:
  "get_free_from n occ = ''Error'' \<or> (\<exists>i<n. get_free_from n occ = to_string i)"
  by (induction n) (auto simp: less_Suc_eq)

lemma get_free_register_cases:
  "get_free_register s = ''Error'' \<or> (\<exists>i<NUMBER_REGISTERS. get_free_register s = to_string i)"
  unfolding get_free_register_def by (rule get_free_from_cases)

lemma set_occupied_to_string:
  "i < NUMBER_REGISTERS \<Longrightarrow>
   set_occupied (to_string i) b s = Inr (s\<lparr>occupiedRegister := (occupiedRegister s)[i := b]\<rparr>)"
  by (simp add: set_occupied_def stoi_to_string set_occupied_at_def)

lemma set_occupied_free:
  assumes "set_occupied (get_free_register s) b s = Inr s'"
  shows "\<exists>i<NUMBER_REGISTERS. get_free_register s = to_string i
           \<and> s' = s\<lparr>occupiedRegister := (occupiedRegister s)[i := b]\<rparr>"
proof -
  from get_free_register_cases [of s] show ?thesis
  proof
    assume "get_free_register s = ''Error''"
    with assms show ?thesis by (simp add: set_occupied_def stoi_Error)
  next
    assume "\<exists>i<NUMBER_REGISTERS. get_free_register s = to_string i"
    then obtain i where i: "i < NUMBER_REGISTERS" "get_free_register s = to_string i" by blast
    with assms show ?thesis by (auto simp: set_occupied_to_string)
  qed
qed

lemma assignment_privileged_plain:
  assumes "prefix PRIV_PREFIX lhs_register" and "\<not> prefix PRIV_PREFIX rhs_register"
    and "transpile_assignment lhs lhs_register rhs_register s = Inr (r, s')"
  shows "\<exists>i<NUMBER_REGISTERS. \<exists>C.
           output_string s' = output_string s @
             ''li '' @ to_string i @ '' '' @ drop (length PRIV_PREFIX) lhs_register @ ''\<newline>'' @
             ''li '' @ C @ '' '' @ STORE_CYCLES @ ''\<newline>'' @
             ''request '' @ to_string i @ '' '' @ C @ ''\<newline>'' @
             ''store '' @ to_string i @ '' '' @ rhs_register @ ''\<newline>''
           \<and> r = rhs_register"
proof -
  let ?L = "get_free_register s"
  from assms obtain s1 where s1: "set_occupied ?L True s = Inr s1"
    by (auto simp: transpile_assignment_def Let_def and_then_Inr)
  then obtain i where i: "i < NUMBER_REGISTERS" "?L = to_string i"
    and s1_eq: "s1 = s\<lparr>occupiedRegister := (occupiedRegister s)[i := True]\<rparr>"
    using set_occupied_free by blast
  let ?s2 = "emit (''li '' @ to_string i @ '' '' @ drop (length PRIV_PREFIX) lhs_register @ ''\<newline>'') s1"
  let ?C = "get_free_register ?s2"
  from assms s1 i obtain name s3 where s3: "set_occupied (to_string i) False ?s2 = Inr s3"
    and s': "s' = bind_register name rhs_register
                   (emit (''li '' @ ?C @ '' '' @ STORE_CYCLES @ ''\<newline>'' @
                          ''request '' @ to_string i @ '' '' @ ?C @ ''\<newline>'' @
                          ''store '' @ to_string i @ '' '' @ rhs_register @ ''\<newline>'') s3)"
    and r: "r = rhs_register"
    by (auto simp: transpile_assignment_def Let_def and_then_Inr)
  from s3 i have "output_string s3 = output_string ?s2"
    by (auto simp: set_occupied_to_string)
  with s' s1_eq have "output_string s' = output_string s @
             ''li '' @ to_string i @ '' '' @ drop (length PRIV_PREFIX) lhs_register @ ''\<newline>'' @
             ''li '' @ ?C @ '' '' @ STORE_CYCLES @ ''\<newline>'' @
             ''request '' @ to_string i @ '' '' @ ?C @ ''\<newline>'' @
             ''store '' @ to_string i @ '' '' @ rhs_register @ ''\<newline>''"
    by (simp add: emit_def bind_register_def)
  with i r show ?thesis by blast
qed


lemma assignment_privileged_both:
  assumes "prefix PRIV_PREFIX lhs_register" and "prefix PRIV_PREFIX rhs_register"
    and "transpile_assignment lhs lhs_register rhs_register s = Inr (r, s')"
  shows "\<exists>i<NUMBER_REGISTERS. \<exists>j<NUMBER_REGISTERS. \<exists>L.
           output_string s' = output_string s @
             ''li '' @ to_string i @ '' '' @ drop (length PRIV_PREFIX) rhs_register @ ''\<newline>'' @
             ''li '' @ to_string j @ '' '' @ LOAD_CYCLES @ ''\<newline>'' @
             ''request '' @ to_string i @ '' '' @ to_string j @ ''\<newline>'' @
             ''load '' @ to_string i @ to_string i @ ''\<newline>'' @
             ''li '' @ L @ '' '' @ drop (length PRIV_PREFIX) lhs_register @ ''\<newline>'' @
             ''li '' @ to_string j @ '' '' @ STORE_CYCLES @ ''\<newline>'' @
             ''request '' @ L @ '' '' @ to_string j @ ''\<newline>'' @
             ''store '' @ L @ '' '' @ to_string i @ ''\<newline>''
           \<and> r = to_string i"
proof -
  let ?R = "get_free_register s"
  from assms obtain s1 where s1: "set_occupied ?R True s = Inr s1"
    by (auto simp: transpile_assignment_def Let_def and_then_Inr)
  then obtain i where i: "i < NUMBER_REGISTERS" "?R = to_string i"
    and s1_eq: "s1 = s\<lparr>occupiedRegister := (occupiedRegister s)[i := True]\<rparr>"
    using set_occupied_free by blast
  let ?s2 = "emit (''li '' @ to_string i @ '' '' @ drop (length PRIV_PREFIX) rhs_register @ ''\<newline>'') s1"
  let ?C = "get_free_register ?s2"
  from assms s1 i obtain s3 where s3: "set_occupied ?C True ?s2 = Inr s3"
    by (auto simp: transpile_assignment_def Let_def and_then_Inr)
  then obtain j where j: "j < NUMBER_REGISTERS" "?C = to_string j"
    and s3_eq: "s3 = ?s2\<lparr>occupiedRegister := (occupiedRegister ?s2)[j := True]\<rparr>"
    using set_occupied_free by blast
  let ?s4 = "emit (''li '' @ to_string j @ '' '' @ LOAD_CYCLES @ ''\<newline>'' @
                   ''request '' @ to_string i @ '' '' @ to_string j @ ''\<newline>'' @
                   ''load '' @ to_string i @ to_string i @ ''\<newline>'') s3"
  let ?L = "get_free_register ?s4"
  from assms s1 i s3 j obtain name s5 where s5: "set_occupied (to_string j) False ?s4 = Inr s5"
    and s': "s' = bind_register name (to_string i)
                   (emit (''li '' @ ?L @ '' '' @ drop (length PRIV_PREFIX) lhs_register @ ''\<newline>'' @
                          ''li '' @ to_string j @ '' '' @ STORE_CYCLES @ ''\<newline>'' @
                          ''request '' @ ?L @ '' '' @ to_string j @ ''\<newline>'' @
                          ''store '' @ ?L @ '' '' @ to_string i @ ''\<newline>'') s5)"
    and r: "r = to_string i"
    by (auto simp: transpile_assignment_def Let_def and_then_Inr)
  from s5 j have "output_string s5 = output_string ?s4"
    by (auto simp: set_occupied_to_string)
  with s' s1_eq s3_eq have "output_string s' = output_string s @
             ''li '' @ to_string i @ '' '' @ drop (length PRIV_PREFIX) rhs_register @ ''\<newline>'' @
             ''li '' @ to_string j @ '' '' @ LOAD_CYCLES @ ''\<newline>'' @
             ''request '' @ to_string i @ '' '' @ to_string j @ ''\<newline>'' @
             ''load '' @ to_string i @ to_string i @ ''\<newline>'' @
             ''li '' @ ?L @ '' '' @ drop (length PRIV_PREFIX) lhs_register @ ''\<newline>'' @
             ''li '' @ to_string j @ '' '' @ STORE_CYCLES @ ''\<newline>'' @
             ''request '' @ ?L @ '' '' @ to_string j @ ''\<newline>'' @
             ''store '' @ ?L @ '' '' @ to_string i @ ''\<newline>''"
    by (simp add: emit_def bind_register_def)
  with i j r show ?thesis by blast
qed

text \<open>
  The lines of a write access, in every run in which the assignment finishes. The code of
  the right-hand side is all in the output (it is \<open>output_string s1\<close>) before the first
  line of the write access is appended. Then follow the address of \<open>x\<close> loaded into a
  register, the write budget \<open>STORE_CYCLES\<close>, one \<open>request\<close> and the \<open>store\<close>; when the
  right-hand side is privileged too, its own address is requested first with
  \<open>LOAD_CYCLES\<close> and loaded. The names \<open>C\<close> and \<open>L\<close> are whatever the allocator returns
  at that moment: a register, or the text \<open>Error\<close>.
\<close>

lemma privileged_write_shape:
  assumes priv: "is_privileged s x"
    and rhs: "transpile_expr rhs s = Inr (rhs_register, s1)"
    and ass: "transpile_expr (BIN_OP (IDENTIFIER x) rhs ASS) s = Inr (r, s2)"
  shows "(\<not> prefix PRIV_PREFIX rhs_register \<longrightarrow>
            (\<exists>i<NUMBER_REGISTERS. \<exists>C.
               output_string s2 = output_string s1 @
                 ''li '' @ to_string i @ '' '' @ address_of s x @ ''\<newline>'' @
                 ''li '' @ C @ '' '' @ STORE_CYCLES @ ''\<newline>'' @
                 ''request '' @ to_string i @ '' '' @ C @ ''\<newline>'' @
                 ''store '' @ to_string i @ '' '' @ rhs_register @ ''\<newline>''
               \<and> r = rhs_register))
       \<and> (prefix PRIV_PREFIX rhs_register \<longrightarrow>
            (\<exists>i<NUMBER_REGISTERS. \<exists>j<NUMBER_REGISTERS. \<exists>L.
               output_string s2 = output_string s1 @
                 ''li '' @ to_string i @ '' '' @ drop (length PRIV_PREFIX) rhs_register @ ''\<newline>'' @
                 ''li '' @ to_string j @ '' '' @ LOAD_CYCLES @ ''\<newline>'' @
                 ''request '' @ to_string i @ '' '' @ to_string j @ ''\<newline>'' @
                 ''load '' @ to_string i @ to_string i @ ''\<newline>'' @
                 ''li '' @ L @ '' '' @ address_of s x @ ''\<newline>'' @
                 ''li '' @ to_string j @ '' '' @ STORE_CYCLES @ ''\<newline>'' @
                 ''request '' @ L @ '' '' @ to_string j @ ''\<newline>'' @
                 ''store '' @ L @ '' '' @ to_string i @ ''\<newline>''
               \<and> r = to_string i))
       \<and> (\<forall>y. rhs = IDENTIFIER y \<and> is_privileged s y \<longrightarrow>
            rhs_register = PRIV_PREFIX @ address_of s y \<and> s1 = s)"
proof -
  from priv rhs ass
  have tail: "transpile_assignment (IDENTIFIER x) (PRIV_PREFIX @ address_of s x) rhs_register s1
                = Inr (r, s2)"
    by (simp add: transpile_bin_op_def)
  have pre: "prefix PRIV_PREFIX (PRIV_PREFIX @ address_of s x)"
    by simp
  have plain: "\<not> prefix PRIV_PREFIX rhs_register \<longrightarrow>
            (\<exists>i<NUMBER_REGISTERS. \<exists>C.
               output_string s2 = output_string s1 @
                 ''li '' @ to_string i @ '' '' @ address_of s x @ ''\<newline>'' @
                 ''li '' @ C @ '' '' @ STORE_CYCLES @ ''\<newline>'' @
                 ''request '' @ to_string i @ '' '' @ C @ ''\<newline>'' @
                 ''store '' @ to_string i @ '' '' @ rhs_register @ ''\<newline>''
               \<and> r = rhs_register)"
    using assignment_privileged_plain [OF pre _ tail] by simp
  have both: "prefix PRIV_PREFIX rhs_register \<longrightarrow>
            (\<exists>i<NUMBER_REGISTERS. \<exists>j<NUMBER_REGISTERS. \<exists>L.
               output_string s2 = output_string s1 @
                 ''li '' @ to_string i @ '' '' @ drop (length PRIV_PREFIX) rhs_register @ ''\<newline>'' @
                 ''li '' @ to_string j @ '' '' @ LOAD_CYCLES @ ''\<newline>'' @
                 ''request '' @ to_string i @ '' '' @ to_string j @ ''\<newline>'' @
                 ''load '' @ to_string i @ to_string i @ ''\<newline>'' @
                 ''li '' @ L @ '' '' @ address_of s x @ ''\<newline>'' @
                 ''li '' @ to_string j @ '' '' @ STORE_CYCLES @ ''\<newline>'' @
                 ''request '' @ L @ '' '' @ to_string j @ ''\<newline>'' @
                 ''store '' @ L @ '' '' @ to_string i @ ''\<newline>''
               \<and> r = to_string i)"
    using assignment_privileged_both [OF pre _ tail] by simp
  have ident: "\<forall>y. rhs = IDENTIFIER y \<and> is_privileged s y \<longrightarrow>
            rhs_register = PRIV_PREFIX @ address_of s y \<and> s1 = s"
    using rhs by auto
  from plain both ident show ?thesis by blast
qed

section \<open>Expressions without a privileged identifier\<close>

lemma no_r_line_weaken: "no_r_line True xs \<Longrightarrow> no_r_line b xs"
  by (cases xs) auto

lemma no_r_line_append: "no_r_line b xs \<Longrightarrow> no_r_line True ys \<Longrightarrow> no_r_line b (xs @ ys)"
  by (induction xs arbitrary: b) (auto intro: no_r_line_weaken)

lemma no_r_line_skip: "CHR ''\<newline>'' \<notin> set xs \<Longrightarrow> no_r_line False (xs @ ys) = no_r_line False ys"
  by (induction xs) auto

lemma no_r_line_concat:
  "(\<And>x. x \<in> set xs \<Longrightarrow> no_r_line True (f x)) \<Longrightarrow> no_r_line True (concat (map f xs))"
  by (induction xs) (auto intro: no_r_line_append)

lemma digit_char_isdigit: "d < 10 \<Longrightarrow> digit_char d \<in> set ''0123456789''"
  unfolding digit_char_def by (rule nth_mem) simp

lemma to_string_digits: "set (to_string n) \<subseteq> set ''0123456789''"
proof (induction n rule: to_string.induct)
  case (1 n)
  show ?case
  proof (cases "n < 10")
    case True
    then show ?thesis
      using digit_char_isdigit [of n] by (simp add: to_string_digit)
  next
    case False
    then have "set (to_string (n div 10)) \<subseteq> set ''0123456789''"
      using "1.IH" by simp
    moreover have "digit_char (n mod 10) \<in> set ''0123456789''"
      by (rule digit_char_isdigit) simp
    ultimately show ?thesis
      using False by (simp add: to_string_more)
  qed
qed

lemma to_string_no_newline: "CHR ''\<newline>'' \<notin> set (to_string n)"
  using to_string_digits [of n] by auto

lemma get_free_register_no_newline: "CHR ''\<newline>'' \<notin> set (get_free_register s)"
  by (simp add: get_free_register_unfold Let_def)

lemma get_free_register_plain: "plain_register (get_free_register s)"
  by (simp add: plain_register_def get_free_register_unfold Let_def PRIV_PREFIX_def)

lemma plain_no_newline: "plain_register r \<Longrightarrow> CHR ''\<newline>'' \<notin> set r"
  by (simp add: plain_register_def)

lemma newline_no_word_char: "\<not> is_word_char (CHR ''\<newline>'')"
  by (simp add: is_word_char_def)

lemma identifier_no_newline: "is_identifier name \<Longrightarrow> CHR ''\<newline>'' \<notin> set name"
  using newline_no_word_char by (auto simp: is_identifier_def)

lemma set_occupied_at_Inr:
  "set_occupied_at i b s = Inr s' \<Longrightarrow> s' = s\<lparr>occupiedRegister := (occupiedRegister s)[i := b]\<rparr>"
  by (auto simp: set_occupied_at_def split: if_splits)

lemma set_occupied_Inr:
  "set_occupied r b s = Inr s' \<Longrightarrow> \<exists>i. s' = s\<lparr>occupiedRegister := (occupiedRegister s)[i := b]\<rparr>"
  by (auto simp: set_occupied_def split: sum.splits if_splits dest: set_occupied_at_Inr)

lemma quiet_step_refl: "plain_registers s \<Longrightarrow> quiet_step s s"
  by (simp add: quiet_step_def)

lemma quiet_step_trans: "quiet_step s s1 \<Longrightarrow> quiet_step s1 s2 \<Longrightarrow> quiet_step s s2"
  by (auto simp: quiet_step_def intro: no_r_line_append)

lemma quiet_step_emit:
  "no_r_line True t \<Longrightarrow> plain_registers s \<Longrightarrow> quiet_step s (emit t s)"
  by (simp add: quiet_step_def emit_def plain_registers_def)

lemma quiet_step_set_occupied:
  "set_occupied r b s = Inr s' \<Longrightarrow> plain_registers s \<Longrightarrow> quiet_step s s'"
  by (auto simp: quiet_step_def plain_registers_def dest!: set_occupied_Inr)

lemma quiet_step_set_occupied_at:
  "set_occupied_at i b s = Inr s' \<Longrightarrow> plain_registers s \<Longrightarrow> quiet_step s s'"
  by (auto simp: quiet_step_def plain_registers_def dest!: set_occupied_at_Inr)

lemma quiet_step_bind:
  "plain_register r \<Longrightarrow> plain_registers s \<Longrightarrow> quiet_step s (bind_register v r s)"
  by (simp add: quiet_step_def bind_register_def plain_registers_def)

lemma quiet_step_plain: "quiet_step s s' \<Longrightarrow> plain_registers s'"
  by (simp add: quiet_step_def)

lemma quiet_step_privileged: "quiet_step s s' \<Longrightarrow> is_privileged s' v = is_privileged s v"
  by (simp add: quiet_step_def is_privileged_def)

lemma mentions_privileged_cong:
  "privilegedObjects s' = privilegedObjects s \<Longrightarrow> mentions_privileged s' e = mentions_privileged s e"
  by (induction s e rule: mentions_privileged.induct) (auto simp: is_privileged_def)

lemma quiet_step_mentions:
  "quiet_step s s' \<Longrightarrow> mentions_privileged s' e = mentions_privileged s e"
  by (rule mentions_privileged_cong) (simp add: quiet_step_def)


lemmas no_r_simps = no_r_line_skip to_string_no_newline get_free_register_no_newline

lemma emit_into_free_quiet:
  assumes "emit_into_free opcode a b s = Inr (r, s')"
    and "plain_registers s"
    and "opcode \<in> {''add'', ''sub'', ''mul'', ''cmpGT''}"
    and "CHR ''\<newline>'' \<notin> set a" and "CHR ''\<newline>'' \<notin> set b"
  shows "quiet_step s s' \<and> plain_register r"
proof -
  let ?t = "opcode @ '' '' @ a @ '' '' @ b @ '' '' @ get_free_register s @ ''\<newline>''"
  from assms(1) have r: "r = get_free_register s"
    and s': "set_occupied (get_free_register s) True (emit ?t s) = Inr s'"
    by (auto simp: emit_into_free_def Let_def and_then_Inr)
  have "no_r_line True ?t"
    using assms(3-5) by (auto simp: no_r_simps)
  then have first: "quiet_step s (emit ?t s)"
    using assms(2) by (simp add: quiet_step_emit)
  then have "quiet_step (emit ?t s) s'"
    using s' by (blast intro: quiet_step_set_occupied quiet_step_plain)
  with first show ?thesis
    using r by (blast intro: quiet_step_trans get_free_register_plain)
qed

lemma transpile_operator_quiet:
  assumes "transpile_operator op a b s = Inr (r, s')"
    and "plain_registers s" and "op \<noteq> ASS"
    and "CHR ''\<newline>'' \<notin> set a" and "CHR ''\<newline>'' \<notin> set b"
  shows "quiet_step s s' \<and> plain_register r"
proof (cases op)
  case ADD
  with assms show ?thesis by (auto simp: transpile_operator_def dest!: emit_into_free_quiet)
next
  case SUB
  with assms show ?thesis by (auto simp: transpile_operator_def dest!: emit_into_free_quiet)
next
  case MUL
  with assms show ?thesis by (auto simp: transpile_operator_def dest!: emit_into_free_quiet)
next
  case LT
  with assms show ?thesis by (auto simp: transpile_operator_def dest!: emit_into_free_quiet)
next
  case GT
  with assms show ?thesis by (auto simp: transpile_operator_def dest!: emit_into_free_quiet)
next
  case NE
  with assms show ?thesis by (auto simp: transpile_operator_def dest!: emit_into_free_quiet)
next
  case ASS
  with assms show ?thesis by simp
next
  case EQ
  with assms obtain s1 where
    sub: "emit_into_free ''sub'' a b s = Inr (r, s1)"
    and s': "s' = emit (''li '' @ get_free_register s1 @ '' 1\<newline>'' @
                       ''cmpGT '' @ get_free_register s1 @ '' '' @ r @ '' '' @ r @ ''\<newline>'') s1"
    by (auto simp: transpile_operator_def Let_def and_then_Inr)
  from sub assms have q: "quiet_step s s1" and r: "plain_register r"
    by (auto dest!: emit_into_free_quiet)
  from r have "no_r_line True (''li '' @ get_free_register s1 @ '' 1\<newline>'' @
                       ''cmpGT '' @ get_free_register s1 @ '' '' @ r @ '' '' @ r @ ''\<newline>'')"
    by (simp add: no_r_simps plain_no_newline)
  with q s' have "quiet_step s1 s'"
    by (simp add: quiet_step_emit quiet_step_plain)
  with q r show ?thesis by (blast intro: quiet_step_trans)
next
  case LE
  let ?F = "get_free_register s"
  from LE assms obtain s1 where
    s1: "set_occupied ?F True s = Inr s1"
    and s': "s' = emit (''li '' @ get_free_register (emit (''cmpGT '' @ a @ '' '' @ b @ '' '' @ ?F @ ''\<newline>'') s1) @ '' 1\<newline>'' @
                       ''sub '' @ ?F @ '' '' @ get_free_register (emit (''cmpGT '' @ a @ '' '' @ b @ '' '' @ ?F @ ''\<newline>'') s1) @ '' '' @ ?F @ ''\<newline>'')
                  (emit (''cmpGT '' @ a @ '' '' @ b @ '' '' @ ?F @ ''\<newline>'') s1)"
    and r: "r = ?F"
    by (auto simp: transpile_operator_def Let_def and_then_Inr)
  from s1 assms have q1: "quiet_step s s1"
    by (blast intro: quiet_step_set_occupied)
  have "no_r_line True (''cmpGT '' @ a @ '' '' @ b @ '' '' @ ?F @ ''\<newline>'')"
    using assms by (simp add: no_r_simps)
  with q1 have q2: "quiet_step s1 (emit (''cmpGT '' @ a @ '' '' @ b @ '' '' @ ?F @ ''\<newline>'') s1)"
    by (simp add: quiet_step_emit quiet_step_plain)
  have "quiet_step (emit (''cmpGT '' @ a @ '' '' @ b @ '' '' @ ?F @ ''\<newline>'') s1) s'"
    unfolding s' using q2 by (intro quiet_step_emit) (simp_all add: no_r_simps quiet_step_plain)
  with q1 q2 r show ?thesis
    by (blast intro: quiet_step_trans get_free_register_plain)
next
  case GE
  let ?F = "get_free_register s"
  from GE assms obtain s1 where
    s1: "set_occupied ?F True s = Inr s1"
    and s': "s' = emit (''li '' @ get_free_register (emit (''cmpGT '' @ b @ '' '' @ a @ '' '' @ ?F @ ''\<newline>'') s1) @ '' 1\<newline>'' @
                       ''sub '' @ ?F @ '' '' @ get_free_register (emit (''cmpGT '' @ b @ '' '' @ a @ '' '' @ ?F @ ''\<newline>'') s1) @ '' '' @ ?F @ ''\<newline>'')
                  (emit (''cmpGT '' @ b @ '' '' @ a @ '' '' @ ?F @ ''\<newline>'') s1)"
    and r: "r = ?F"
    by (auto simp: transpile_operator_def Let_def and_then_Inr)
  from s1 assms have q1: "quiet_step s s1"
    by (blast intro: quiet_step_set_occupied)
  have "no_r_line True (''cmpGT '' @ b @ '' '' @ a @ '' '' @ ?F @ ''\<newline>'')"
    using assms by (simp add: no_r_simps)
  with q1 have q2: "quiet_step s1 (emit (''cmpGT '' @ b @ '' '' @ a @ '' '' @ ?F @ ''\<newline>'') s1)"
    by (simp add: quiet_step_emit quiet_step_plain)
  have "quiet_step (emit (''cmpGT '' @ b @ '' '' @ a @ '' '' @ ?F @ ''\<newline>'') s1) s'"
    unfolding s' using q2 by (intro quiet_step_emit) (simp_all add: no_r_simps quiet_step_plain)
  with q1 q2 r show ?thesis
    by (blast intro: quiet_step_trans get_free_register_plain)
qed


lemma load_operand_plain: "\<not> prefix PRIV_PREFIX reg \<Longrightarrow> load_operand node reg s = Inr (reg, s)"
  by (simp add: load_operand_def)

lemma transpile_bin_op_quiet:
  assumes run: "transpile_bin_op lhs rhs op l r s = Inr (res, s')"
    and s: "plain_registers s" and l: "plain_register l" and r: "plain_register r"
  shows "quiet_step s s' \<and> plain_register res"
proof (cases "op = ASS")
  case False
  with run l r have "transpile_operator op l r s = Inr (res, s')"
    by (simp add: transpile_bin_op_def load_operand_plain plain_register_def and_then_def)
  with False s l r show ?thesis
    by (auto dest!: transpile_operator_quiet simp: plain_no_newline)
next
  case True
  let ?t = "''li '' @ l @ '' 0\<newline>'' @ ''add '' @ l @ '' '' @ r @ '' '' @ l @ ''\<newline>''"
  from True run l r have s': "set_occupied r False (emit ?t s) = Inr s'" and res: "res = l"
    by (auto simp: transpile_bin_op_def transpile_assignment_def plain_register_def Let_def
        and_then_Inr)
  have "no_r_line True ?t"
    using l r by (simp add: no_r_simps plain_no_newline)
  with s have q: "quiet_step s (emit ?t s)"
    by (simp add: quiet_step_emit)
  with s' have "quiet_step (emit ?t s) s'"
    by (blast intro: quiet_step_set_occupied quiet_step_plain)
  with q res l show ?thesis
    by (blast intro: quiet_step_trans)
qed

lemma transpile_number_quiet:
  assumes "transpile_expr (NUMBER number) s = Inr (r, s')" and "plain_registers s"
  shows "quiet_step s s' \<and> plain_register r"
proof -
  let ?t = "''li '' @ get_free_register s @ '' '' @ to_string (unat number) @ ''\<newline>''"
  from assms have s': "set_occupied (get_free_register s) True (emit ?t s) = Inr s'"
    and r: "r = get_free_register s"
    by (auto simp: Let_def and_then_Inr)
  have "no_r_line True ?t"
    by (simp add: no_r_simps)
  with assms have q: "quiet_step s (emit ?t s)"
    by (simp add: quiet_step_emit)
  with s' have "quiet_step (emit ?t s) s'"
    by (blast intro: quiet_step_set_occupied quiet_step_plain)
  with q r show ?thesis
    by (blast intro: quiet_step_trans get_free_register_plain)
qed

lemma transpile_identifier_quiet:
  assumes run: "transpile_expr (IDENTIFIER v) s = Inr (r, s')" and s: "plain_registers s"
    and v: "\<not> is_privileged s v"
  shows "quiet_step s s' \<and> plain_register r"
proof (cases "register_of s v = []")
  case True
  with run v obtain s1 where s1: "set_occupied (get_free_register s) True s = Inr s1"
    and s': "s' = bind_register v (get_free_register s) s1" and r: "r = get_free_register s"
    by (auto simp: Let_def and_then_Inr)
  from s1 s have q: "quiet_step s s1"
    by (blast intro: quiet_step_set_occupied)
  then have "quiet_step s1 s'"
    unfolding s' by (intro quiet_step_bind get_free_register_plain quiet_step_plain)
  with q r show ?thesis
    by (blast intro: quiet_step_trans get_free_register_plain)
next
  case False
  with run v have r: "r = register_of s v" and s': "s' = s"
    by auto
  from False obtain x where "registers s v = Some x" and "register_of s v = x"
    by (auto simp: register_of_def split: option.splits)
  with s r have "plain_register r"
    by (auto simp: plain_registers_def)
  with s s' show ?thesis
    by (simp add: quiet_step_refl)
qed

lemma transpile_syscall_number_quiet:
  assumes run: "transpile_syscall_number sc s = Inr (r, s')" and s: "plain_registers s"
  shows "quiet_step s s' \<and> plain_register r"
proof -
  let ?t = "''li '' @ get_free_register s @ '' '' @ (if sc = OPEN then syscall_number sc else ''0'') @ ''\<newline>''"
  from run obtain s1 where s1: "set_occupied (get_free_register s) True (emit ?t s) = Inr s1"
    and s': "s' = emit (''syscall '' @ syscall_number sc) s1" and r: "r = ''0''"
    by (cases sc) (auto simp: transpile_syscall_number_def Let_def and_then_Inr)
  have "no_r_line True ?t"
    by (cases sc) (simp_all add: no_r_simps syscall_number_def)
  with s have q: "quiet_step s (emit ?t s)"
    by (simp add: quiet_step_emit)
  with s1 have q1: "quiet_step (emit ?t s) s1"
    by (blast intro: quiet_step_set_occupied quiet_step_plain)
  have "no_r_line True (''syscall '' @ syscall_number sc)"
    by (cases sc) (simp_all add: syscall_number_def)
  with q1 have "quiet_step s1 s'"
    unfolding s' by (intro quiet_step_emit quiet_step_plain)
  with q q1 r show ?thesis
    by (auto intro: quiet_step_trans simp: plain_register_def PRIV_PREFIX_def)
qed

lemma save_syscall_register_quiet:
  assumes run: "save_syscall_register i arg s = Inr s'" and s: "plain_registers s"
  shows "quiet_step s s'"
proof -
  from run obtain name where
    s': "s' = emit (''li '' @ get_free_register (bind_register name (to_string i) s) @ '' 0\<newline>'' @
                   ''add '' @ get_free_register (bind_register name (to_string i) s) @ '' '' @ to_string i @ '' '' @
                     get_free_register (bind_register name (to_string i) s) @ ''\<newline>'')
              (bind_register (to_string i) (get_free_register (bind_register name (to_string i) s))
                 (bind_register name (to_string i) s))"
    by (auto simp: save_syscall_register_def Let_def and_then_Inr split: option.splits)
  have plain_i: "plain_register (to_string i)"
    using to_string_digits [of i] by (cases "to_string i") (auto simp: plain_register_def PRIV_PREFIX_def)
  from s plain_i have q1: "quiet_step s (bind_register name (to_string i) s)"
    by (rule quiet_step_bind [rotated])
  then have q2: "quiet_step (bind_register name (to_string i) s)
                   (bind_register (to_string i) (get_free_register (bind_register name (to_string i) s))
                      (bind_register name (to_string i) s))"
    by (intro quiet_step_bind get_free_register_plain quiet_step_plain)
  then have "quiet_step (bind_register (to_string i) (get_free_register (bind_register name (to_string i) s))
                      (bind_register name (to_string i) s)) s'"
    unfolding s' by (intro quiet_step_emit quiet_step_plain) (simp_all add: no_r_simps)
  with q1 q2 show ?thesis
    by (blast intro: quiet_step_trans)
qed

lemma push_registers_quiet: "no_r_line True (push_registers s)"
proof -
  let ?F = "get_free_register s"
  let ?f = "\<lambda>i. if occupiedRegister s ! i
                 then ''store '' @ to_string RSP @ '' '' @ to_string i @ ''\<newline>'' @
                      ''add '' @ to_string RSP @ '' '' @ ?F @ '' '' @ to_string RSP @ ''\<newline>'' @
                      ''add '' @ to_string RBP @ '' '' @ ?F @ '' '' @ to_string RBP @ ''\<newline>''
                 else []"
  have a: "no_r_line True (''li '' @ ?F @ '' 1\<newline>'')"
    by (simp add: no_r_simps)
  have b: "no_r_line True (concat (map ?f [1..<NUMBER_REGISTERS]))"
    by (rule no_r_line_concat) (simp add: no_r_simps)
  have c: "no_r_line True (''store '' @ to_string RSP @ '' '' @ to_string RSP @ ''\<newline>'' @
      ''add '' @ to_string RSP @ '' '' @ ?F @ '' '' @ to_string RSP @ ''\<newline>'' @
      ''store '' @ to_string RSP @ '' '' @ to_string RBP @ ''\<newline>'' @
      ''mul '' @ to_string RSP @ '' '' @ ?F @ '' '' @ to_string RSP @ ''\<newline>'')"
    by (simp add: no_r_simps)
  have "push_registers s = (''li '' @ ?F @ '' 1\<newline>'') @ concat (map ?f [1..<NUMBER_REGISTERS]) @
      (''store '' @ to_string RSP @ '' '' @ to_string RSP @ ''\<newline>'' @
      ''add '' @ to_string RSP @ '' '' @ ?F @ '' '' @ to_string RSP @ ''\<newline>'' @
      ''store '' @ to_string RSP @ '' '' @ to_string RBP @ ''\<newline>'' @
      ''mul '' @ to_string RSP @ '' '' @ ?F @ '' '' @ to_string RSP @ ''\<newline>'')"
    by (simp add: push_registers_def Let_def)
  with a b c show ?thesis
    by (simp only: no_r_line_append)
qed

lemma pop_registers_quiet: "no_r_line True (pop_registers s)"
proof -
  let ?F = "get_free_register s"
  let ?f = "\<lambda>i. if occupiedRegister s ! i
                 then ''load '' @ to_string RSP @ '' '' @ to_string i @ ''\<newline>'' @
                      ''sub '' @ to_string RSP @ '' '' @ ?F @ '' '' @ to_string RSP @ ''\<newline>'' @
                      ''sub '' @ to_string RBP @ '' '' @ ?F @ '' '' @ to_string RBP @ ''\<newline>''
                 else []"
  have a: "no_r_line True (''li '' @ ?F @ '' 1\<newline>'')"
    by (simp add: no_r_simps)
  have b: "no_r_line True (concat (map ?f (rev [1..<NUMBER_REGISTERS])))"
    by (rule no_r_line_concat) (simp add: no_r_simps)
  have c: "no_r_line True (''store '' @ to_string RSP @ '' '' @ to_string RSP @ ''\<newline>'' @
      ''sub '' @ to_string RSP @ '' '' @ ?F @ '' '' @ to_string RSP @ ''\<newline>'' @
      ''load '' @ to_string RSP @ '' '' @ to_string RBP @ ''\<newline>'')"
    by (simp add: no_r_simps)
  have "pop_registers s = (''li '' @ ?F @ '' 1\<newline>'') @ concat (map ?f (rev [1..<NUMBER_REGISTERS])) @
      (''store '' @ to_string RSP @ '' '' @ to_string RSP @ ''\<newline>'' @
      ''sub '' @ to_string RSP @ '' '' @ ?F @ '' '' @ to_string RSP @ ''\<newline>'' @
      ''load '' @ to_string RSP @ '' '' @ to_string RBP @ ''\<newline>'')"
    by (simp add: pop_registers_def Let_def)
  with a b c show ?thesis
    by (simp only: no_r_line_append)
qed


lemma transpile_expr_quiet:
    "plain_registers s \<Longrightarrow> \<not> mentions_privileged s e \<Longrightarrow> lexed_names e \<Longrightarrow>
       transpile_expr e s = Inr (r, s') \<Longrightarrow> quiet_step s s' \<and> plain_register r"
  and transpile_func_call_quiet:
    "plain_registers t \<Longrightarrow> \<forall>a \<in> set as. \<not> mentions_privileged t a \<and> lexed_names a \<Longrightarrow>
       is_identifier funcName \<Longrightarrow>
       transpile_func_call funcName as t = Inr (q, t') \<Longrightarrow> quiet_step t t' \<and> plain_register q"
  and transpile_call_args_quiet:
    "plain_registers u \<Longrightarrow> \<forall>a \<in> set bs. \<not> mentions_privileged u a \<and> lexed_names a \<Longrightarrow>
       transpile_call_args i bs u = Inr u' \<Longrightarrow> quiet_step u u'"
  and transpile_syscall_args_quiet:
    "plain_registers w \<Longrightarrow> \<forall>a \<in> set cs. \<not> mentions_privileged w a \<and> lexed_names a \<Longrightarrow>
       transpile_syscall_args j cs w = Inr w' \<Longrightarrow> quiet_step w w'"
proof (induction e s and funcName as t and i bs u and j cs w
    arbitrary: r s' and q t' and u' and w'
    rule: transpile_expr_transpile_func_call_transpile_call_args_transpile_syscall_args.induct)
  case (1 e s)
  then show ?case by simp
next
  case (2 funcName args s)
  then show ?case by simp
next
  case (3 sc args s)
  from "3.prems" obtain s1 where args: "transpile_syscall_args 0 args s = Inr s1"
    and num: "transpile_syscall_number sc s1 = Inr (r, s')"
    by (auto split: sum.splits)
  from "3.IH" [OF "3.prems"(1) _ args] "3.prems" have q1: "quiet_step s s1"
    by simp
  have "quiet_step s1 s' \<and> plain_register r"
    using transpile_syscall_number_quiet [OF num quiet_step_plain [OF q1]] .
  with q1 show ?case
    by (blast intro: quiet_step_trans)
next
  case (4 number s)
  then show ?case
    using transpile_number_quiet [of number s r s'] by simp
next
  case (5 v s)
  then show ?case
    using transpile_identifier_quiet [of v s r s'] by simp
next
  case (6 lhs rhs op s)
  from "6.prems" obtain l s1 r2 s2 where lhs: "transpile_expr lhs s = Inr (l, s1)"
    and rhs: "transpile_expr rhs s1 = Inr (r2, s2)"
    and op: "transpile_bin_op lhs rhs op l r2 s2 = Inr (r, s')"
    by (auto split: sum.splits)
  from "6.IH"(1) [OF "6.prems"(1) _ _ lhs] "6.prems"
  have q1: "quiet_step s s1" and l: "plain_register l"
    by simp_all
  from q1 "6.prems" have "\<not> mentions_privileged s1 rhs"
    by (simp add: quiet_step_mentions)
  with "6.IH"(2) [OF lhs refl quiet_step_plain [OF q1] _ _ rhs] "6.prems"
  have q2: "quiet_step s1 s2" and r2: "plain_register r2"
    by simp_all
  have "quiet_step s2 s' \<and> plain_register r"
    using transpile_bin_op_quiet [OF op quiet_step_plain [OF q2] l r2] .
  with q1 q2 show ?case
    by (blast intro: quiet_step_trans)
next
  case (7 funcName args s)
  let ?s1 = "emit (push_registers s) s"
  from "7.prems" obtain s2 where args: "transpile_call_args 0 args ?s1 = Inr s2"
    and t': "t' = emit (''li 0 0\<newline>'' @ ''li 1 '' @ funcName @ ''\<newline>'' @
                        ''jmpEqZ 0 1\<newline>'' @ pop_registers ?s1) s2"
    and q: "q = ''0''"
    by (auto simp: Let_def split: sum.splits)
  from "7.prems"(1) have q1: "quiet_step s ?s1"
    by (simp add: quiet_step_emit push_registers_quiet)
  with "7.prems" have "\<forall>a \<in> set args. \<not> mentions_privileged ?s1 a \<and> lexed_names a"
    by (simp add: quiet_step_mentions)
  with "7.IH" [OF refl refl quiet_step_plain [OF q1] _ args]
  have q2: "quiet_step ?s1 s2"
    by simp
  have "no_r_line True (''li 0 0\<newline>'' @ ''li 1 '' @ funcName @ ''\<newline>'' @ ''jmpEqZ 0 1\<newline>'')"
    using "7.prems"(3) by (simp add: no_r_simps identifier_no_newline)
  then have "no_r_line True ((''li 0 0\<newline>'' @ ''li 1 '' @ funcName @ ''\<newline>'' @ ''jmpEqZ 0 1\<newline>'')
                         @ pop_registers ?s1)"
    by (rule no_r_line_append) (rule pop_registers_quiet)
  then have "quiet_step s2 t'"
    unfolding t' using q2 by (simp add: quiet_step_emit quiet_step_plain)
  with q1 q2 q show ?case
    by (auto intro: quiet_step_trans simp: plain_register_def PRIV_PREFIX_def)
next
  case (8 i s)
  then show ?case by (simp add: quiet_step_refl)
next
  case (9 i node args s)
  from "9.prems" obtain x y ba where node: "transpile_expr node s = Inr (x, y)"
    and ba: "and_then (set_occupied x False
                (emit (''li '' @ to_string (i + 2) @ '' 0\<newline>'' @
                       ''add '' @ to_string (i + 2) @ x @ to_string (i + 2) @ ''\<newline>'') y))
              (set_occupied_at (i + 2) True) = Inr ba"
    and rest: "transpile_call_args (Suc i) args ba = Inr u'"
    by (auto simp: Let_def split: sum.splits)
  let ?xa = "emit (''li '' @ to_string (i + 2) @ '' 0\<newline>'' @
                   ''add '' @ to_string (i + 2) @ x @ to_string (i + 2) @ ''\<newline>'') y"
  from "9.IH"(1) [OF "9.prems"(1) _ _ node] "9.prems"
  have q1: "quiet_step s y" and x: "plain_register x"
    by simp_all
  from x have "no_r_line True (''li '' @ to_string (i + 2) @ '' 0\<newline>'' @
                   ''add '' @ to_string (i + 2) @ x @ to_string (i + 2) @ ''\<newline>'')"
    by (simp add: no_r_simps plain_no_newline)
  with q1 have q2: "quiet_step y ?xa"
    by (simp add: quiet_step_emit quiet_step_plain)
  from ba obtain m where m: "set_occupied x False ?xa = Inr m"
    and m': "set_occupied_at (i + 2) True m = Inr ba"
    by (auto simp: and_then_Inr)
  from m q2 have q3: "quiet_step ?xa m"
    by (blast intro: quiet_step_set_occupied quiet_step_plain)
  with m' have q4: "quiet_step m ba"
    by (blast intro: quiet_step_set_occupied_at quiet_step_plain)
  from q1 q2 q3 q4 have q5: "quiet_step s ba"
    by (blast intro: quiet_step_trans)
  with "9.prems" have "\<forall>a \<in> set args. \<not> mentions_privileged ba a \<and> lexed_names a"
    by (simp add: quiet_step_mentions)
  with "9.IH"(2) [OF node refl refl ba quiet_step_plain [OF q5] _ rest]
  have "quiet_step ba u'"
    by simp
  with q5 show ?case
    by (blast intro: quiet_step_trans)
next
  case (10 i s)
  then show ?case by (simp add: quiet_step_refl)
next
  case (11 i arg args s)
  from "11.prems" have i: "i < NUMBER_REGISTERS"
    by (auto split: if_splits)
  with "11.prems" obtain b x y where
    b: "(if occupiedRegister s ! i then save_syscall_register i arg s
         else set_occupied_at i True s) = Inr b"
    and arg: "transpile_expr arg (emit (''li '' @ to_string i @ '' 0\<newline>'') b) = Inr (x, y)"
    and rest: "transpile_syscall_args (Suc i) args
                 (emit (''add '' @ to_string i @ '' '' @ x @ '' '' @ to_string i @ ''\<newline>'') y)
               = Inr w'"
    by (auto split: sum.splits)
  let ?b1 = "emit (''li '' @ to_string i @ '' 0\<newline>'') b"
  let ?y1 = "emit (''add '' @ to_string i @ '' '' @ x @ '' '' @ to_string i @ ''\<newline>'') y"
  from b "11.prems"(1) have q1: "quiet_step s b"
    by (auto split: if_splits intro: save_syscall_register_quiet quiet_step_set_occupied_at)
  then have q2: "quiet_step b ?b1"
    by (intro quiet_step_emit quiet_step_plain) (simp_all add: no_r_simps)
  from q1 q2 have q12: "quiet_step s ?b1"
    by (rule quiet_step_trans)
  with "11.prems" have "\<not> mentions_privileged ?b1 arg" and "lexed_names arg"
    by (simp_all add: quiet_step_mentions)
  with "11.IH"(1) [OF _ b quiet_step_plain [OF q12] _ _ arg] i
  have q3: "quiet_step ?b1 y" and x: "plain_register x"
    by simp_all
  from x q3 have q4: "quiet_step y ?y1"
    by (intro quiet_step_emit quiet_step_plain) (simp_all add: no_r_simps plain_no_newline)
  from q12 q3 q4 have q5: "quiet_step s ?y1"
    by (blast intro: quiet_step_trans)
  with "11.prems" have "\<forall>a \<in> set args. \<not> mentions_privileged ?y1 a \<and> lexed_names a"
    by (simp add: quiet_step_mentions)
  with "11.IH"(2) [OF _ b arg refl quiet_step_plain [OF q5] _ rest] i
  have "quiet_step ?y1 w'"
    by simp
  with q5 show ?case
    by (blast intro: quiet_step_trans)
qed


lemma no_r_line_getlines:
  "no_r_line b out \<Longrightarrow>
     (\<forall>l \<in> set (tl (getlines out)). l = [] \<or> hd l \<noteq> CHR ''r'')
     \<and> (b \<longrightarrow> (\<forall>l \<in> set (getlines out). l = [] \<or> hd l \<noteq> CHR ''r''))"
proof (induction out arbitrary: b)
  case Nil
  then show ?case by simp
next
  case (Cons c cs)
  show ?case
  proof (cases "c = CHR ''\<newline>''")
    case True
    with Cons.prems have "no_r_line True cs" by simp
    from Cons.IH [OF this] True show ?thesis by simp
  next
    case False
    with Cons.prems have rest: "no_r_line False cs" and c: "b \<longrightarrow> c \<noteq> CHR ''r''"
      by auto
    from Cons.IH [OF rest] False c show ?thesis
      by (cases "getlines cs") auto
  qed
qed

lemma no_r_line_request_lines: "no_r_line True out \<Longrightarrow> request_lines out = []"
proof -
  assume "no_r_line True out"
  then have "\<forall>l \<in> set (getlines out). l = [] \<or> hd l \<noteq> CHR ''r''"
    using no_r_line_getlines [of True out] by simp
  then have "\<forall>l \<in> set (getlines out). \<not> prefix ''request'' l"
    by (auto simp: prefix_def)
  then show ?thesis
    by (simp add: request_lines_def filter_empty_conv)
qed

text \<open>
  C8. Let the expression \<open>e\<close> have no identifier node that names a privileged object, and
  let its function names be identifiers of the lexer. Started in a state whose register
  table holds plain register names, \<open>transpile_expr\<close> only appends to \<open>output_string\<close>, and
  no line of what it appends begins with \<open>request\<close>.
\<close>

theorem no_privileged_identifier_no_request:
  assumes "transpile_expr e s = Inr (r, s')"
    and "\<not> mentions_privileged s e"
    and "lexed_names e"
    and "plain_registers s"
  shows "\<exists>emitted. output_string s' = output_string s @ emitted \<and> request_lines emitted = []"
proof -
  from assms have "quiet_step s s'"
    using transpile_expr_quiet [of s e r s'] by simp
  then show ?thesis
    by (auto simp: quiet_step_def dest: no_r_line_request_lines)
qed

theorem no_privileged_identifier_no_request_witness:
  "\<exists>r s'. transpile_expr (FUNC_CALL ''g'' [BIN_OP (IDENTIFIER ''d'') (NUMBER 2) ADD])
             (reset_registers (declare_privileged (privObjNodes both_privileged_program) new_transpiler))
           = Inr (r, s')
         \<and> (\<exists>emitted.
               output_string s' =
                 output_string (reset_registers
                   (declare_privileged (privObjNodes both_privileged_program) new_transpiler))
                 @ emitted
               \<and> request_lines emitted = [])"
proof -
  let ?s = "reset_registers (declare_privileged (privObjNodes both_privileged_program) new_transpiler)"
  let ?e = "FUNC_CALL ''g'' [BIN_OP (IDENTIFIER ''d'') (NUMBER 2) ADD]"
  obtain r s' where h1: "transpile_expr ?e ?s = Inr (r, s')"
    by (simp add: both_privileged_program_def codegen_defs)
  have h2: "\<not> mentions_privileged ?s ?e"
    by (simp add: both_privileged_program_def codegen_defs)
  have h3: "lexed_names ?e"
    by (simp add: is_identifier_def is_word_char_def isdigit_def)
  have h4: "plain_registers ?s"
    by (simp add: plain_registers_def reset_registers_def)
  from no_privileged_identifier_no_request [OF h1 h2 h3 h4] h1 show ?thesis
    by blast
qed

text \<open>
  The register table at the start of every function body is of this kind: it is empty
  after the reset, and the parameter loop adds one-character names with codes below 8.
\<close>

lemma parameter_name_plain: "n < NUMBER_REGISTERS \<Longrightarrow> plain_register [char_of n]"
proof -
  assume "n < NUMBER_REGISTERS"
  then have "char_of n \<noteq> CHR ''\<newline>''"
    by (simp add: NUMBER_REGISTERS_def char_of_eq_iff take_bit_eq_mod)
  then show ?thesis
    by (auto simp: plain_register_def PRIV_PREFIX_def)
qed

lemma bind_parameters_plain:
  "plain_registers s \<Longrightarrow> bind_parameters n ps s = Inr s' \<Longrightarrow> plain_registers s'"
proof (induction ps arbitrary: n s)
  case Nil
  then show ?case by simp
next
  case (Cons p ps)
  from Cons.prems(2) have n: "n < NUMBER_REGISTERS"
    by (auto split: if_splits)
  with Cons.prems(2) obtain s1 where
    s1: "set_occupied_at n True (bind_register p [char_of n] s) = Inr s1"
    and rest: "bind_parameters (Suc n) ps s1 = Inr s'"
    by (auto split: sum.splits)
  from n Cons.prems(1) have "quiet_step s (bind_register p [char_of n] s)"
    by (intro quiet_step_bind parameter_name_plain)
  with s1 have "plain_registers s1"
    by (blast intro: quiet_step_set_occupied_at quiet_step_plain)
  from this rest show ?case
    by (rule Cons.IH)
qed

lemma function_start_plain:
  "bind_parameters 0 ps (reset_registers s) = Inr s' \<Longrightarrow> plain_registers s'"
proof -
  assume run: "bind_parameters 0 ps (reset_registers s) = Inr s'"
  have "plain_registers (reset_registers s)"
    by (simp add: plain_registers_def reset_registers_def)
  from this run show ?thesis
    by (rule bind_parameters_plain)
qed

section \<open>Relational operators\<close>

lemma digit_val_digit_char: "d < 10 \<Longrightarrow> digit_val (digit_char d) = d"
proof -
  assume "d < 10"
  then have "d = 0 \<or> d = 1 \<or> d = 2 \<or> d = 3 \<or> d = 4 \<or> d = 5 \<or> d = 6 \<or> d = 7 \<or> d = 8 \<or> d = 9"
    by arith
  then show ?thesis
    by (elim disjE) (simp_all add: digit_val_def digit_char_def)
qed

lemma digit_char_separators:
  "d < 10 \<Longrightarrow> (digit_char d = CHR '' '') = False"
  "d < 10 \<Longrightarrow> (digit_char d = CHR ''\<newline>'') = False"
  using digit_char_isdigit [of d] by auto

lemma register_index_to_string:
  "i < NUMBER_REGISTERS \<Longrightarrow> register_index (to_string i) = Some i"
  using digit_char_isdigit [of i]
  by (simp add: register_index_def to_string_digit NUMBER_REGISTERS_def decimal_def
      digit_val_digit_char isdigit_def)

lemma exec_three_registers:
  assumes "i < NUMBER_REGISTERS" "j < NUMBER_REGISTERS" "k < NUMBER_REGISTERS"
  shows "exec_instruction (''sub '' @ to_string i @ '' '' @ to_string j @ '' '' @ to_string k) regs
         = Some (regs(k := regs i - regs j))"
    and "exec_instruction (''cmpGT '' @ to_string i @ '' '' @ to_string j @ '' '' @ to_string k) regs
         = Some (regs(k := cmpGT (regs i) (regs j)))"
proof -
  have f: "\<And>m. m < NUMBER_REGISTERS \<Longrightarrow> to_string m = [digit_char m] \<and> m < 10"
    by (simp add: to_string_digit NUMBER_REGISTERS_def)
  have r: "\<And>m. m < NUMBER_REGISTERS \<Longrightarrow> register_index [digit_char m] = Some m"
    using register_index_to_string f by fastforce
  show "exec_instruction (''sub '' @ to_string i @ '' '' @ to_string j @ '' '' @ to_string k) regs
         = Some (regs(k := regs i - regs j))"
    using assms f [of i] f [of j] f [of k]
    by (simp add: exec_instruction_def digit_char_separators r)
  show "exec_instruction (''cmpGT '' @ to_string i @ '' '' @ to_string j @ '' '' @ to_string k) regs
         = Some (regs(k := cmpGT (regs i) (regs j)))"
    using assms f [of i] f [of j] f [of k]
    by (simp add: exec_instruction_def digit_char_separators r)
qed

lemma exec_load_one:
  assumes "i < NUMBER_REGISTERS"
  shows "exec_instruction (''li '' @ to_string i @ '' 1'') regs = Some (regs(i := 1))"
proof -
  have f: "to_string i = [digit_char i] \<and> i < 10"
    using assms by (simp add: to_string_digit NUMBER_REGISTERS_def)
  have r: "register_index [digit_char i] = Some i"
    using register_index_to_string [OF assms] f by simp
  show ?thesis
    using f by (simp add: exec_instruction_def digit_char_separators r immediate_def isdigit_def
        decimal_def digit_val_def)
qed

lemma getlines_line:
  "CHR ''\<newline>'' \<notin> set l \<Longrightarrow> getlines (l @ CHR ''\<newline>'' # rest) = l # getlines rest"
  by (induction l) auto


lemma get_free_register_occupancy:
  "occupiedRegister s = occupiedRegister t \<Longrightarrow> get_free_register s = get_free_register t"
  by (simp add: get_free_register_def)

lemma two_free_registers:
  assumes len: "length (occupiedRegister s) = NUMBER_REGISTERS"
    and f1: "f1 < NUMBER_REGISTERS" "\<not> occupiedRegister s ! f1"
      "\<forall>j. f1 < j \<and> j < NUMBER_REGISTERS \<longrightarrow> occupiedRegister s ! j"
    and f2: "f2 < f1" "\<not> occupiedRegister s ! f2"
      "\<forall>j. f2 < j \<and> j < f1 \<longrightarrow> occupiedRegister s ! j"
  shows "get_free_register s = to_string f1"
    and "occupiedRegister t = (occupiedRegister s)[f1 := True] \<Longrightarrow> get_free_register t = to_string f2"
proof -
  show "get_free_register s = to_string f1"
    unfolding get_free_register_def using f1 by (rule get_free_from_highest)
  assume t: "occupiedRegister t = (occupiedRegister s)[f1 := True]"
  have "get_free_from NUMBER_REGISTERS ((occupiedRegister s)[f1 := True]) = to_string f2"
  proof (rule get_free_from_highest)
    show "f2 < NUMBER_REGISTERS" using f1 f2 by simp
    show "\<not> (occupiedRegister s)[f1 := True] ! f2" using f2 by simp
    show "\<forall>j. f2 < j \<and> j < NUMBER_REGISTERS \<longrightarrow> (occupiedRegister s)[f1 := True] ! j"
    proof (intro allI impI)
      fix j assume j: "f2 < j \<and> j < NUMBER_REGISTERS"
      show "(occupiedRegister s)[f1 := True] ! j"
      proof (cases "j = f1")
        case True
        with len f1 show ?thesis by simp
      next
        case False
        with j f1 f2 have "occupiedRegister s ! j"
          by (cases "j < f1") auto
        with False show ?thesis by simp
      qed
    qed
  qed
  with t show "get_free_register t = to_string f2"
    by (simp add: get_free_register_def)
qed

lemma result_value_code:
  assumes "res = Inr (to_string f, s')" and "f < NUMBER_REGISTERS"
    and "output_string s' = output_string s @ code"
    and "exec_lines (getlines code) regs = Some regs'"
  shows "result_value res s regs = Some (regs' f)"
  using assms by (simp add: result_value_def register_index_to_string)

lemma run_line:
  "CHR ''\<newline>'' \<notin> set l \<Longrightarrow>
   exec_lines (getlines (l @ CHR ''\<newline>'' # rest)) regs =
     (case exec_instruction l regs of None \<Rightarrow> None | Some regs' \<Rightarrow> exec_lines (getlines rest) regs')"
  by (simp add: getlines_line)

lemma run_three_registers:
  assumes "i < NUMBER_REGISTERS" "j < NUMBER_REGISTERS" "k < NUMBER_REGISTERS"
  shows "exec_lines (getlines ((''sub '' @ to_string i @ '' '' @ to_string j @ '' '' @ to_string k)
           @ CHR ''\<newline>'' # rest)) regs
         = exec_lines (getlines rest) (regs(k := regs i - regs j))"
    and "exec_lines (getlines ((''cmpGT '' @ to_string i @ '' '' @ to_string j @ '' '' @ to_string k)
           @ CHR ''\<newline>'' # rest)) regs
         = exec_lines (getlines rest) (regs(k := cmpGT (regs i) (regs j)))"
  using assms
  by (simp_all only: run_line exec_three_registers to_string_no_newline option.case
      set_append set_simps Un_iff insert_iff empty_iff char.inject simp_thms not_False_eq_True)


lemma run_load_one:
  assumes "i < NUMBER_REGISTERS"
  shows "exec_lines (getlines ((''li '' @ to_string i @ '' 1'') @ CHR ''\<newline>'' # rest)) regs
         = exec_lines (getlines rest) (regs(i := 1))"
  using assms
  by (simp only: run_line exec_load_one to_string_no_newline option.case
      set_append set_simps Un_iff insert_iff empty_iff char.inject simp_thms not_False_eq_True)

lemma cmpGT_one_difference: "cmpGT 1 (a - b) = (if a = b then 1 else 0)"
  by (simp add: cmpGT_def)

text \<open>
  C2, as the code has it. The operands are in the registers \<open>ra\<close> and \<open>rb\<close>, and \<open>f1\<close>
  and \<open>f2\<close> are the two highest free registers. For every content of the registers, the
  code of the operator leaves in its result register: \<open>cmpGT(b,a)\<close> for \<open>a<b\<close>,
  \<open>cmpGT(a,b)\<close> for \<open>a>b\<close>, \<open>cmpGT(1, a-b)\<close> for \<open>a==b\<close> and \<open>a-b\<close> for \<open>a!=b\<close>. The
  code of \<open>a==b\<close> has no subtraction from 1: \<open>cmpGT(1, a-b)\<close> is 1 exactly when the
  operands are equal.
\<close>

theorem relational_operators_compute:
  assumes len: "length (occupiedRegister s) = NUMBER_REGISTERS"
    and f1: "f1 < NUMBER_REGISTERS" "\<not> occupiedRegister s ! f1"
      "\<forall>j. f1 < j \<and> j < NUMBER_REGISTERS \<longrightarrow> occupiedRegister s ! j"
    and f2: "f2 < f1" "\<not> occupiedRegister s ! f2"
      "\<forall>j. f2 < j \<and> j < f1 \<longrightarrow> occupiedRegister s ! j"
    and ra: "ra < NUMBER_REGISTERS" and rb: "rb < NUMBER_REGISTERS"
  shows "result_value (transpile_operator LT (to_string ra) (to_string rb) s) s regs
           = Some (cmpGT (regs rb) (regs ra))
       \<and> result_value (transpile_operator GT (to_string ra) (to_string rb) s) s regs
           = Some (cmpGT (regs ra) (regs rb))
       \<and> result_value (transpile_operator EQ (to_string ra) (to_string rb) s) s regs
           = Some (cmpGT 1 (regs ra - regs rb))
       \<and> result_value (transpile_operator NE (to_string ra) (to_string rb) s) s regs
           = Some (regs ra - regs rb)
       \<and> cmpGT 1 (regs ra - regs rb) = (if regs ra = regs rb then 1 else 0)"
proof -
  note free = two_free_registers [OF len f1 f2]
  have f2': "f2 < NUMBER_REGISTERS" and apart: "f2 \<noteq> f1" "f1 \<noteq> f2"
    using f1 f2 by simp_all
  have mark: "\<And>t. occupiedRegister t = occupiedRegister s \<Longrightarrow>
      set_occupied (to_string f1) True t
        = Inr (t\<lparr>occupiedRegister := (occupiedRegister s)[f1 := True]\<rparr>)"
    using f1 by (simp add: set_occupied_to_string)
  have into_free: "\<And>opcode a b. emit_into_free opcode a b s
      = Inr (to_string f1,
             (emit (opcode @ '' '' @ a @ '' '' @ b @ '' '' @ to_string f1 @ ''\<newline>'') s)
               \<lparr>occupiedRegister := (occupiedRegister s)[f1 := True]\<rparr>)"
    by (simp add: emit_into_free_def Let_def free(1) mark and_then_def emit_def)
  have lt: "result_value (transpile_operator LT (to_string ra) (to_string rb) s) s regs
           = Some (cmpGT (regs rb) (regs ra))"
  proof (rule result_value_code [where f = f1 and regs' = "regs(f1 := cmpGT (regs rb) (regs ra))", simplified])
    show "transpile_operator LT (to_string ra) (to_string rb) s = Inr (to_string f1,
             (emit (''cmpGT '' @ to_string rb @ '' '' @ to_string ra @ '' '' @ to_string f1 @ ''\<newline>'') s)
               \<lparr>occupiedRegister := (occupiedRegister s)[f1 := True]\<rparr>)"
      by (simp add: transpile_operator_def into_free)
    show "f1 < NUMBER_REGISTERS" by (rule f1)
    show "output_string ((emit (''cmpGT '' @ to_string rb @ '' '' @ to_string ra @ '' '' @ to_string f1 @ ''\<newline>'') s)
               \<lparr>occupiedRegister := (occupiedRegister s)[f1 := True]\<rparr>)
          = output_string s @ ((''cmpGT '' @ to_string rb @ '' '' @ to_string ra @ '' '' @ to_string f1) @ CHR ''\<newline>'' # [])"
      by (simp add: emit_def)
    show "exec_lines (getlines ((''cmpGT '' @ to_string rb @ '' '' @ to_string ra @ '' '' @ to_string f1) @ CHR ''\<newline>'' # [])) regs
          = Some (regs(f1 := cmpGT (regs rb) (regs ra)))"
      by (simp only: run_three_registers [OF rb ra f1(1)] getlines.simps exec_lines.simps)
  qed
  have gt: "result_value (transpile_operator GT (to_string ra) (to_string rb) s) s regs
           = Some (cmpGT (regs ra) (regs rb))"
  proof (rule result_value_code [where f = f1 and regs' = "regs(f1 := cmpGT (regs ra) (regs rb))", simplified])
    show "transpile_operator GT (to_string ra) (to_string rb) s = Inr (to_string f1,
             (emit (''cmpGT '' @ to_string ra @ '' '' @ to_string rb @ '' '' @ to_string f1 @ ''\<newline>'') s)
               \<lparr>occupiedRegister := (occupiedRegister s)[f1 := True]\<rparr>)"
      by (simp add: transpile_operator_def into_free)
    show "f1 < NUMBER_REGISTERS" by (rule f1)
    show "output_string ((emit (''cmpGT '' @ to_string ra @ '' '' @ to_string rb @ '' '' @ to_string f1 @ ''\<newline>'') s)
               \<lparr>occupiedRegister := (occupiedRegister s)[f1 := True]\<rparr>)
          = output_string s @ ((''cmpGT '' @ to_string ra @ '' '' @ to_string rb @ '' '' @ to_string f1) @ CHR ''\<newline>'' # [])"
      by (simp add: emit_def)
    show "exec_lines (getlines ((''cmpGT '' @ to_string ra @ '' '' @ to_string rb @ '' '' @ to_string f1) @ CHR ''\<newline>'' # [])) regs
          = Some (regs(f1 := cmpGT (regs ra) (regs rb)))"
      by (simp only: run_three_registers [OF ra rb f1(1)] getlines.simps exec_lines.simps)
  qed
  have ne: "result_value (transpile_operator NE (to_string ra) (to_string rb) s) s regs
           = Some (regs ra - regs rb)"
  proof (rule result_value_code [where f = f1 and regs' = "regs(f1 := regs ra - regs rb)", simplified])
    show "transpile_operator NE (to_string ra) (to_string rb) s = Inr (to_string f1,
             (emit (''sub '' @ to_string ra @ '' '' @ to_string rb @ '' '' @ to_string f1 @ ''\<newline>'') s)
               \<lparr>occupiedRegister := (occupiedRegister s)[f1 := True]\<rparr>)"
      by (simp add: transpile_operator_def into_free)
    show "f1 < NUMBER_REGISTERS" by (rule f1)
    show "output_string ((emit (''sub '' @ to_string ra @ '' '' @ to_string rb @ '' '' @ to_string f1 @ ''\<newline>'') s)
               \<lparr>occupiedRegister := (occupiedRegister s)[f1 := True]\<rparr>)
          = output_string s @ ((''sub '' @ to_string ra @ '' '' @ to_string rb @ '' '' @ to_string f1) @ CHR ''\<newline>'' # [])"
      by (simp add: emit_def)
    show "exec_lines (getlines ((''sub '' @ to_string ra @ '' '' @ to_string rb @ '' '' @ to_string f1) @ CHR ''\<newline>'' # [])) regs
          = Some (regs(f1 := regs ra - regs rb))"
      by (simp only: run_three_registers [OF ra rb f1(1)] getlines.simps exec_lines.simps)
  qed
  have eq: "result_value (transpile_operator EQ (to_string ra) (to_string rb) s) s regs
           = Some (cmpGT 1 (regs ra - regs rb))"
  proof -
    have run: "transpile_operator EQ (to_string ra) (to_string rb) s = Inr (to_string f1,
             emit (''li '' @ to_string f2 @ '' 1'' @ ''\<newline>'' @ ''cmpGT '' @ to_string f2 @ '' '' @ to_string f1 @ '' '' @ to_string f1 @ ''\<newline>'')
               ((emit (''sub '' @ to_string ra @ '' '' @ to_string rb @ '' '' @ to_string f1 @ ''\<newline>'') s)\<lparr>occupiedRegister := (occupiedRegister s)[f1 := True]\<rparr>))"
      by (simp add: transpile_operator_def Let_def into_free free and_then_def emit_def)
    have out: "output_string (emit (''li '' @ to_string f2 @ '' 1'' @ ''\<newline>'' @ ''cmpGT '' @ to_string f2 @ '' '' @ to_string f1 @ '' '' @ to_string f1 @ ''\<newline>'')
               ((emit (''sub '' @ to_string ra @ '' '' @ to_string rb @ '' '' @ to_string f1 @ ''\<newline>'') s)\<lparr>occupiedRegister := (occupiedRegister s)[f1 := True]\<rparr>))
          = output_string s @ ((''sub '' @ to_string ra @ '' '' @ to_string rb @ '' '' @ to_string f1) @ CHR ''\<newline>'' # (''li '' @ to_string f2 @ '' 1'') @ CHR ''\<newline>'' # (''cmpGT '' @ to_string f2 @ '' '' @ to_string f1 @ '' '' @ to_string f1) @ CHR ''\<newline>'' # [])"
      by (simp add: emit_def)
    have exec: "exec_lines (getlines ((''sub '' @ to_string ra @ '' '' @ to_string rb @ '' '' @ to_string f1) @ CHR ''\<newline>'' # (''li '' @ to_string f2 @ '' 1'') @ CHR ''\<newline>'' # (''cmpGT '' @ to_string f2 @ '' '' @ to_string f1 @ '' '' @ to_string f1) @ CHR ''\<newline>'' # [])) regs
          = Some (regs(f1 := regs ra - regs rb, f2 := 1, f1 := cmpGT 1 (regs ra - regs rb)))"
      using apart
      by (simp only: run_three_registers [OF ra rb f1(1)] run_load_one [OF f2']
          run_three_registers [OF f2' f1(1) f1(1)] getlines.simps exec_lines.simps
          fun_upd_apply if_True if_False refl simp_thms)
    from result_value_code [OF run f1(1) out exec] show ?thesis
      by simp
  qed
  have one: "cmpGT 1 (regs ra - regs rb) = (if regs ra = regs rb then 1 else 0)"
    by (rule cmpGT_one_difference)
  from lt gt eq ne one show ?thesis
    by (intro conjI)
qed

theorem relational_operators_compute_witness:
  "result_value (transpile_operator EQ ''5'' ''4'' two_variables_state) two_variables_state
     both_hold_five = Some 1
   \<and> result_value (transpile_operator NE ''5'' ''4'' two_variables_state) two_variables_state
     both_hold_five = Some 0
   \<and> result_value (transpile_operator LT ''5'' ''4'' two_variables_state) two_variables_state
     both_hold_five = Some 0
   \<and> result_value (transpile_operator GT ''5'' ''4'' two_variables_state) two_variables_state
     both_hold_five = Some 0"
proof -
  have occ: "occupiedRegister two_variables_state
               = [False, False, False, False, True, True, True, True]"
    by (simp add: two_variables_state_def)
  have len: "length (occupiedRegister two_variables_state) = NUMBER_REGISTERS"
    by (simp add: occ NUMBER_REGISTERS_def)
  have f1: "3 < NUMBER_REGISTERS" "\<not> occupiedRegister two_variables_state ! 3"
    by (simp_all add: occ NUMBER_REGISTERS_def)
  have above1: "\<forall>j. 3 < j \<and> j < NUMBER_REGISTERS \<longrightarrow> occupiedRegister two_variables_state ! j"
  proof (intro allI impI)
    fix j :: nat
    assume "3 < j \<and> j < NUMBER_REGISTERS"
    then have "j = 4 \<or> j = 5 \<or> j = 6 \<or> j = 7"
      unfolding NUMBER_REGISTERS_def by arith
    then show "occupiedRegister two_variables_state ! j"
      by (auto simp: occ)
  qed
  have f2: "(2::nat) < 3" "\<not> occupiedRegister two_variables_state ! 2"
    by (simp_all add: occ)
  have above2: "\<forall>j. 2 < j \<and> j < (3::nat) \<longrightarrow> occupiedRegister two_variables_state ! j"
    by arith
  have ra: "5 < NUMBER_REGISTERS" and rb: "4 < NUMBER_REGISTERS"
    by (simp_all add: NUMBER_REGISTERS_def)
  from relational_operators_compute [OF len f1 above1 f2 above2 ra rb, of both_hold_five]
  show ?thesis
    by (simp add: to_string_register both_hold_five_def cmpGT_def)
qed

lemmas machine_defs =
  result_value_def exec_instruction_def register_index_def immediate_def decimal_def
  digit_val_def isdigit_def cmpGT_def both_hold_five_def two_variables_state_def

text \<open>
  C2, as the claim has it, fails. With \<open>a\<close> in register 5 holding 5, the code of \<open>a==5\<close>
  leaves 1, as the scenario of the claim says, where the identity of the claim,
  \<open>1 - cmpGT(1, a-b)\<close>, is 0.
\<close>

theorem relational_identities_counterexample:
  "result_value (transpile_expr (BIN_OP (IDENTIFIER ''a'') (NUMBER 5) EQ) two_variables_state)
     two_variables_state both_hold_five = Some 1
   \<and> 1 - cmpGT 1 (5 - 5) = 0"
  by (simp add: codegen_defs machine_defs)

text \<open>
  The code of \<open>a<=b\<close> and \<open>a>=b\<close> is commented \<open>compare if not (...)\<close>, and its last line
  is \<open>sub f one f\<close>: it subtracts 1 from the comparison, where the negation is 1 minus the
  comparison. With 5 in both operands it leaves \<open>2^64 - 1\<close>, and it leaves 0 when the
  relation does not hold.
\<close>

lemma comparison_minus_one:
  "result_value (transpile_expr (BIN_OP (IDENTIFIER ''a'') (NUMBER 5) LE) two_variables_state)
     two_variables_state both_hold_five = Some (- 1)
   \<and> result_value (transpile_expr (BIN_OP (IDENTIFIER ''a'') (NUMBER 5) GE) two_variables_state)
     two_variables_state both_hold_five = Some (- 1)
   \<and> result_value (transpile_expr (BIN_OP (IDENTIFIER ''a'') (NUMBER 4) LE) two_variables_state)
     two_variables_state both_hold_five = Some 0"
  by (simp add: codegen_defs machine_defs)

section \<open>Programs on which the transpiler goes wrong\<close>

text \<open>
  C1. Three writes to the privileged \<open>x\<close> at address 200, each with two registers free
  when the assignment begins. In \<open>x = 1\<close> the value takes register 1 and the address
  register 0, the allocator has nothing left for the budget, and the request is
  \<open>request 0 Error\<close>. In \<open>x = y\<close> the read access takes both registers, and the write access
  is \<open>li Error 200\<close>, \<open>request Error 0\<close>, \<open>store Error 1\<close>: its request names no register
  that holds the address of \<open>x\<close>. In \<open>x = g()\<close> the call returns register 0 without marking
  it, the budget is loaded into that register, and \<open>store 1 0\<close> stores the budget 20 in
  place of the value.
\<close>

theorem privileged_write_registers_collide:
  "transpile write_number_program
     = Inr ''li 7 9216\<newline>li 6 9216\<newline>li 1 1\<newline>li 0 200\<newline>li Error 20\<newline>request 0 Error\<newline>store 0 1\<newline>''
   \<and> transpile write_privileged_program
     = Inr ''li 7 9216\<newline>li 6 9216\<newline>li 1 300\<newline>li 0 30\<newline>request 1 0\<newline>load 11\<newline>li Error 200\<newline>li 0 20\<newline>request Error 0\<newline>store Error 1\<newline>''
   \<and> map_sum id output_string
       (transpile_functions (funcDefNodes write_call_result_program)
          (declare_privileged (privObjNodes write_call_result_program) new_transpiler))
     = Inr ''main:li 7 9216\<newline>li 6 9216\<newline>li 1 1\<newline>store 6 2\<newline>add 6 1 6\<newline>add 7 1 7\<newline>store 6 3\<newline>add 6 1 6\<newline>add 7 1 7\<newline>store 6 4\<newline>add 6 1 6\<newline>add 7 1 7\<newline>store 6 5\<newline>add 6 1 6\<newline>add 7 1 7\<newline>store 6 6\<newline>add 6 1 6\<newline>add 7 1 7\<newline>store 6 7\<newline>add 6 1 6\<newline>add 7 1 7\<newline>store 6 6\<newline>add 6 1 6\<newline>store 6 7\<newline>mul 6 1 6\<newline>li 0 0\<newline>li 1 g\<newline>jmpEqZ 0 1\<newline>li 1 1\<newline>load 6 7\<newline>sub 6 1 6\<newline>sub 7 1 7\<newline>load 6 6\<newline>sub 6 1 6\<newline>sub 7 1 7\<newline>load 6 5\<newline>sub 6 1 6\<newline>sub 7 1 7\<newline>load 6 4\<newline>sub 6 1 6\<newline>sub 7 1 7\<newline>load 6 3\<newline>sub 6 1 6\<newline>sub 7 1 7\<newline>load 6 2\<newline>sub 6 1 6\<newline>sub 7 1 7\<newline>store 6 6\<newline>sub 6 1 6\<newline>load 6 7\<newline>li 1 200\<newline>li 0 20\<newline>request 1 0\<newline>store 1 0\<newline>''"
proof (intro conjI)
  show "transpile write_number_program
     = Inr ''li 7 9216\<newline>li 6 9216\<newline>li 1 1\<newline>li 0 200\<newline>li Error 20\<newline>request 0 Error\<newline>store 0 1\<newline>''"
    by (simp add: transpile_def write_number_program_def codegen_defs label_defs)
  show "transpile write_privileged_program
     = Inr ''li 7 9216\<newline>li 6 9216\<newline>li 1 300\<newline>li 0 30\<newline>request 1 0\<newline>load 11\<newline>li Error 200\<newline>li 0 20\<newline>request Error 0\<newline>store Error 1\<newline>''"
    by (simp add: transpile_def write_privileged_program_def codegen_defs label_defs)
  show "map_sum id output_string
       (transpile_functions (funcDefNodes write_call_result_program)
          (declare_privileged (privObjNodes write_call_result_program) new_transpiler))
     = Inr ''main:li 7 9216\<newline>li 6 9216\<newline>li 1 1\<newline>store 6 2\<newline>add 6 1 6\<newline>add 7 1 7\<newline>store 6 3\<newline>add 6 1 6\<newline>add 7 1 7\<newline>store 6 4\<newline>add 6 1 6\<newline>add 7 1 7\<newline>store 6 5\<newline>add 6 1 6\<newline>add 7 1 7\<newline>store 6 6\<newline>add 6 1 6\<newline>add 7 1 7\<newline>store 6 7\<newline>add 6 1 6\<newline>add 7 1 7\<newline>store 6 6\<newline>add 6 1 6\<newline>store 6 7\<newline>mul 6 1 6\<newline>li 0 0\<newline>li 1 g\<newline>jmpEqZ 0 1\<newline>li 1 1\<newline>load 6 7\<newline>sub 6 1 6\<newline>sub 7 1 7\<newline>load 6 6\<newline>sub 6 1 6\<newline>sub 7 1 7\<newline>load 6 5\<newline>sub 6 1 6\<newline>sub 7 1 7\<newline>load 6 4\<newline>sub 6 1 6\<newline>sub 7 1 7\<newline>load 6 3\<newline>sub 6 1 6\<newline>sub 7 1 7\<newline>load 6 2\<newline>sub 6 1 6\<newline>sub 7 1 7\<newline>store 6 6\<newline>sub 6 1 6\<newline>load 6 7\<newline>li 1 200\<newline>li 0 20\<newline>request 1 0\<newline>store 1 0\<newline>''"
    by (simp add: write_call_result_program_def codegen_defs saved_registers)
qed

text \<open>
  C3. Every branch writes the two fixed texts \<open>ELSE_LABEL\<close> and \<open>END_LABEL\<close>. With two
  branches in one function the stream defines each label twice, the label table keeps
  the line of the last definition only, and in the final text the jumps of the first
  branch go to lines 14 and 15, which belong to the second.
\<close>

theorem fixed_labels_collide:
  "map_sum id (\<lambda>s. (output_string s, collect_labels (output_string s)))
     (transpile_functions (funcDefNodes two_branches_program)
        (declare_privileged (privObjNodes two_branches_program) new_transpiler))
   = Inr (''f:li 4 ELSE_LABEL\<newline>jmpEqZ 5 4 \<newline>exit\<newline>li 4 0\<newline>li 3 END_LABEL\<newline>jmpEqZ 4 3 \<newline>ELSE_LABEL:exit\<newline>END_LABEL:li 3 ELSE_LABEL\<newline>jmpEqZ 5 3 \<newline>exit\<newline>li 3 0\<newline>li 2 END_LABEL\<newline>jmpEqZ 3 2 \<newline>ELSE_LABEL:exit\<newline>END_LABEL:'',
           [(''f'', 1), (''ELSE_LABEL'', 14), (''END_LABEL'', 15)])
   \<and> transpile two_branches_program
       = Inr ''li 4 14\<newline>jmpEqZ 5 4 \<newline>exit\<newline>li 4 0\<newline>li 3 15\<newline>jmpEqZ 4 3 \<newline>exit\<newline>li 3 14\<newline>jmpEqZ 5 3 \<newline>exit\<newline>li 3 0\<newline>li 2 15\<newline>jmpEqZ 3 2 \<newline>exit\<newline>''"
proof -
  have codegen:
    "map_sum id (\<lambda>s. (output_string s, collect_labels (output_string s)))
       (transpile_functions (funcDefNodes two_branches_program)
          (declare_privileged (privObjNodes two_branches_program) new_transpiler))
     = Inr (''f:li 4 ELSE_LABEL\<newline>jmpEqZ 5 4 \<newline>exit\<newline>li 4 0\<newline>li 3 END_LABEL\<newline>jmpEqZ 4 3 \<newline>ELSE_LABEL:exit\<newline>END_LABEL:li 3 ELSE_LABEL\<newline>jmpEqZ 5 3 \<newline>exit\<newline>li 3 0\<newline>li 2 END_LABEL\<newline>jmpEqZ 3 2 \<newline>ELSE_LABEL:exit\<newline>END_LABEL:'',
             [(''f'', 1), (''ELSE_LABEL'', 14), (''END_LABEL'', 15)])"
    by (simp add: two_branches_program_def codegen_defs label_defs)
  have final:
    "transpile two_branches_program
     = Inr ''li 4 14\<newline>jmpEqZ 5 4 \<newline>exit\<newline>li 4 0\<newline>li 3 15\<newline>jmpEqZ 4 3 \<newline>exit\<newline>li 3 14\<newline>jmpEqZ 5 3 \<newline>exit\<newline>li 3 0\<newline>li 2 15\<newline>jmpEqZ 3 2 \<newline>exit\<newline>''"
    by (simp add: transpile_def two_branches_program_def codegen_defs label_defs)
  from codegen final show ?thesis by (rule conjI)
qed

text \<open>
  C4. Three final texts with a line that is no instruction of the set: \<open>load 55\<close> has one
  operand, since the two registers are appended without a blank between them;
  \<open>syscall 0exit\<close> is two instructions on one line, since the system call is appended
  without a line break; and after a branch without \<open>else\<close> the text keeps the immediate
  \<open>END_LABEL\<close> and the marker \<open>END_LABEL:\<close>, since that marker follows \<open>ELSE_LABEL:\<close> on
  the same line and is not found.
\<close>

theorem malformed_output_lines:
  "transpile both_privileged_program
     = Inr ''li 7 9216\<newline>li 6 9216\<newline>li 5 300\<newline>li 4 30\<newline>request 5 4\<newline>load 55\<newline>li 3 200\<newline>li 4 20\<newline>request 3 4\<newline>store 3 5\<newline>''
   \<and> transpile open_program
     = Inr ''li 7 9216\<newline>li 6 9216\<newline>li 0 0\<newline>li 5 4\<newline>add 0 5 0\<newline>li 1 0\<newline>li 4 5\<newline>add 1 4 1\<newline>li 3 0\<newline>syscall 0exit\<newline>''
   \<and> transpile branch_without_else_program
     = Inr ''li 4 7\<newline>jmpEqZ 5 4 \<newline>exit\<newline>li 4 0\<newline>li 3 END_LABEL\<newline>jmpEqZ 4 3 \<newline>END_LABEL:''"
proof (intro conjI)
  show "transpile both_privileged_program
     = Inr ''li 7 9216\<newline>li 6 9216\<newline>li 5 300\<newline>li 4 30\<newline>request 5 4\<newline>load 55\<newline>li 3 200\<newline>li 4 20\<newline>request 3 4\<newline>store 3 5\<newline>''"
    by (simp add: transpile_def both_privileged_program_def codegen_defs label_defs)
  show "transpile open_program
     = Inr ''li 7 9216\<newline>li 6 9216\<newline>li 0 0\<newline>li 5 4\<newline>add 0 5 0\<newline>li 1 0\<newline>li 4 5\<newline>add 1 4 1\<newline>li 3 0\<newline>syscall 0exit\<newline>''"
    by (simp add: transpile_def open_program_def codegen_defs label_defs)
  show "transpile branch_without_else_program
     = Inr ''li 4 7\<newline>jmpEqZ 5 4 \<newline>exit\<newline>li 4 0\<newline>li 3 END_LABEL\<newline>jmpEqZ 4 3 \<newline>END_LABEL:''"
    by (simp add: transpile_def branch_without_else_program_def codegen_defs label_defs)
qed

text \<open>
  C5. The code for \<open>open(4,5)\<close> at the start of a function body puts the arguments into
  registers 0 and 1 and the number 0 into register 3, and its system call names
  register 0. For \<open>write\<close>, \<open>read\<close> and \<open>ioctl\<close> the register taken for the number is
  loaded with 0, and the instruction has the number itself as operand.
\<close>

theorem syscall_operand_is_the_number:
  "map_sum id (\<lambda>(r, s). (r, output_string s))
     (transpile_expr (SYS_CALL OPEN [NUMBER 4, NUMBER 5]) fresh_function_state)
   = Inr (''0'', ''li 0 0\<newline>li 5 4\<newline>add 0 5 0\<newline>li 1 0\<newline>li 4 5\<newline>add 1 4 1\<newline>li 3 0\<newline>syscall 0'')
   \<and> map_sum id (\<lambda>(r, s). (r, output_string s))
       (transpile_expr (SYS_CALL WRITE [NUMBER 7]) fresh_function_state)
   = Inr (''0'', ''li 0 0\<newline>li 5 7\<newline>add 0 5 0\<newline>li 4 0\<newline>syscall 1'')
   \<and> map_sum id (\<lambda>(r, s). (r, output_string s))
       (transpile_expr (SYS_CALL IOCTL [NUMBER 7]) fresh_function_state)
   = Inr (''0'', ''li 0 0\<newline>li 5 7\<newline>add 0 5 0\<newline>li 4 0\<newline>syscall 3'')"
  by (simp add: codegen_defs)

text \<open>
  C6. With all eight registers occupied the allocator returns the text \<open>Error\<close>, and the
  paths that do not convert it with \<open>std::stoi\<close> write it into the output: the
  transpiler finishes and the file has \<open>li Error 200\<close> and \<open>request Error Error\<close>. The
  second program is one the header comment of lexer.h lists as valid; its code, before
  the labels are replaced, has \<open>li Error 20\<close> and \<open>request 0 Error\<close>.
\<close>

theorem exhausted_allocator_writes_error:
  "transpile six_variables_program
     = Inr ''li 7 9216\<newline>li 6 9216\<newline>li Error 200\<newline>li Error 30\<newline>request Error Error\<newline>load Error5\<newline>''
   \<and> map_sum id output_string
       (transpile_functions (funcDefNodes documented_branch_program)
          (declare_privileged (privObjNodes documented_branch_program) new_transpiler))
     = Inr ''main:li 7 9216\<newline>li 6 9216\<newline>li 4 5\<newline>li 5 0\<newline>add 5 4 5\<newline>li 4 5\<newline>sub 5 4 3\<newline>li 2 1\<newline>cmpGT 2 3 3\<newline>li 2 ELSE_LABEL\<newline>jmpEqZ 3 2 \<newline>li 2 2\<newline>li 1 100\<newline>li 0 20\<newline>request 1 0\<newline>store 1 2\<newline>li 1 0\<newline>li 0 END_LABEL\<newline>jmpEqZ 1 0 \<newline>ELSE_LABEL:li 1 100\<newline>li 0 100\<newline>li Error 20\<newline>request 0 Error\<newline>store 0 1\<newline>END_LABEL:li 0 0\<newline>add 5 0 0\<newline>li 1 0\<newline>exit\<newline>''"
proof (intro conjI)
  show "transpile six_variables_program
     = Inr ''li 7 9216\<newline>li 6 9216\<newline>li Error 200\<newline>li Error 30\<newline>request Error Error\<newline>load Error5\<newline>''"
    by (simp add: transpile_def six_variables_program_def codegen_defs label_defs)
  show "map_sum id output_string
       (transpile_functions (funcDefNodes documented_branch_program)
          (declare_privileged (privObjNodes documented_branch_program) new_transpiler))
     = Inr ''main:li 7 9216\<newline>li 6 9216\<newline>li 4 5\<newline>li 5 0\<newline>add 5 4 5\<newline>li 4 5\<newline>sub 5 4 3\<newline>li 2 1\<newline>cmpGT 2 3 3\<newline>li 2 ELSE_LABEL\<newline>jmpEqZ 3 2 \<newline>li 2 2\<newline>li 1 100\<newline>li 0 20\<newline>request 1 0\<newline>store 1 2\<newline>li 1 0\<newline>li 0 END_LABEL\<newline>jmpEqZ 1 0 \<newline>ELSE_LABEL:li 1 100\<newline>li 0 100\<newline>li Error 20\<newline>request 0 Error\<newline>store 0 1\<newline>END_LABEL:li 0 0\<newline>add 5 0 0\<newline>li 1 0\<newline>exit\<newline>''"
    by (simp add: documented_branch_program_def codegen_defs)
qed

text \<open>
  C9. The parameters \<open>x\<close> and \<open>y\<close> are bound to the strings of the single characters
  with codes 0 and 1, not to the texts \<open>0\<close> and \<open>1\<close>: the code for \<open>x + y\<close> has these
  characters as operands, and \<open>return x\<close> ends the transpiler in the exception of
  \<open>std::stoi\<close>. A ninth parameter ends it with the message \<open>too many parameters\<close>.
\<close>

theorem parameters_bound_to_characters:
  "map_sum id (\<lambda>s. (registers s ''x'', registers s ''y''))
     (bind_parameters 0 [''x'', ''y''] fresh_function_state)
   = Inr (Some [CHR 0x00], Some [CHR 0x01])
   \<and> transpile parameters_program = Inr (''add '' @ [CHR 0x00] @ '' '' @ [CHR 0x01] @ '' 5\<newline>'')
   \<and> transpile return_parameter_program = Inl InvalidArgument
   \<and> transpile nine_parameters_program = Inl TooManyParameters"
proof (intro conjI)
  show "map_sum id (\<lambda>s. (registers s ''x'', registers s ''y''))
     (bind_parameters 0 [''x'', ''y''] fresh_function_state)
   = Inr (Some [CHR 0x00], Some [CHR 0x01])"
    by (simp add: codegen_defs char_of_parameter)
  show "transpile parameters_program = Inr (''add '' @ [CHR 0x00] @ '' '' @ [CHR 0x01] @ '' 5\<newline>'')"
    by (simp add: transpile_def parameters_program_def codegen_defs label_defs char_of_parameter)
  show "transpile return_parameter_program = Inl InvalidArgument"
    by (simp add: transpile_def return_parameter_program_def codegen_defs stoi_def
        isspace_def isdigit_def char_of_parameter)
  show "transpile nine_parameters_program = Inl TooManyParameters"
    by (simp add: transpile_def nine_parameters_program_def codegen_defs)
qed

section \<open>Label resolution has no diagnostics\<close>

text \<open>
  What follows traces one line \<open>li d g\<close> of the stream through the pass: \<open>d\<close> are the
  digits of the register and \<open>g\<close> is the name the line refers to. The line stands after a
  line break (or at the start of the text) and before white space (or at the end), and
  both steps taken for a label, the removal of its definitions and the replacement of
  its references, leave it there whenever the label is no prefix of \<open>g\<close> and no prefix of
  the opcode \<open>li\<close>.
\<close>

lemma space_no_word_char: "isspace c \<Longrightarrow> \<not> is_word_char c"
  unfolding isspace_def by (auto simp: is_word_char_def)

lemma colon_no_word_char: "\<not> is_word_char (CHR '':'')"
  by (simp add: is_word_char_def)

lemma digit_no_space: "isdigit c \<Longrightarrow> \<not> isspace c"
  unfolding isdigit_def by (auto simp: isspace_def)

lemma digit_is_word_char: "isdigit c \<Longrightarrow> is_word_char c"
  unfolding isdigit_def by (auto simp: is_word_char_def)

lemma prefix_append_cases:
  assumes "prefix p (l @ post)"
  shows "prefix p l \<or> (post \<noteq> [] \<and> hd post \<in> set p)"
proof -
  from assms consider "prefix p l" | us where "p = l @ us" "prefix us post"
    by (auto simp: prefix_append)
  then show ?thesis
  proof cases
    case 1 then show ?thesis by simp
  next
    case 2
    show ?thesis
    proof (cases us)
      case Nil with 2 show ?thesis by simp
    next
      case (Cons u us')
      with 2 show ?thesis by (cases post) auto
    qed
  qed
qed

lemma prefix_before_last:
  assumes "prefix n (q @ X)" and "q \<noteq> []" and "last q \<notin> set n"
  shows "length n < length q"
proof -
  from \<open>q \<noteq> []\<close> have q: "q = butlast q @ [last q]" by simp
  from assms(1) have "prefix n (butlast q @ (last q # X))"
    by (subst (asm) q) simp
  from prefix_append_cases [OF this] assms(3) have "prefix n (butlast q)" by simp
  then have "length n \<le> length (butlast q)" by (rule prefix_length_le)
  with \<open>q \<noteq> []\<close> show ?thesis by (cases q rule: rev_cases) auto
qed

lemma erase_label_no_occurrence:
  assumes "\<not> prefix (name @ '':'') (c # cs)"
  shows "erase_label name adv 0 k (c # cs) = c # erase_label name adv 0 (k - 1) cs"
  using assms by (cases k) simp_all

lemma label_not_at_space:
  assumes "\<forall>c\<in>set name. is_word_char c" and "isspace c"
  shows "\<not> prefix (name @ '':'') (c # cs)"
proof
  assume "prefix (name @ '':'') (c # cs)"
  then have "c = hd (name @ '':'')" by (cases name) auto
  then have "c \<in> set name \<or> c = CHR '':''" by (cases name) auto
  with assms show False
    using space_no_word_char [of c] by (auto simp: isspace_def)
qed

lemma erase_label_behind:
  assumes "\<forall>c\<in>set name. is_word_char c" and "post = [] \<or> isspace (hd post)"
  shows "\<exists>post'. erase_label name adv 0 k post = post' \<and> (post' = [] \<or> isspace (hd post'))"
proof (cases post)
  case Nil then show ?thesis by simp
next
  case (Cons c cs)
  with assms(2) have "isspace c" by simp
  from erase_label_no_occurrence [OF label_not_at_space [OF assms(1) this]] Cons \<open>isspace c\<close>
  show ?thesis by simp
qed

lemma erase_label_line:
  assumes name: "\<forall>c\<in>set name. is_word_char c" and l: "CHR '':'' \<notin> set l"
    and post: "post = [] \<or> isspace (hd post)"
  shows "\<exists>post'. erase_label name adv 0 k (l @ post) = l @ post' \<and> (post' = [] \<or> isspace (hd post'))"
  using l
proof (induction l arbitrary: k)
  case Nil
  show ?case using erase_label_behind [OF name post] by simp
next
  case (Cons c l)
  have "\<not> prefix (name @ '':'') ((c # l) @ post)"
  proof
    assume "prefix (name @ '':'') ((c # l) @ post)"
    from prefix_append_cases [OF this]
    show False
    proof
      assume "prefix (name @ '':'') (c # l)"
      then have "set (name @ '':'') \<subseteq> set (c # l)" by (rule set_mono_prefix)
      with Cons.prems show False by auto
    next
      assume "post \<noteq> [] \<and> hd post \<in> set (name @ '':'')"
      with post name show False
        using space_no_word_char [of "hd post"] by (auto simp: isspace_def)
    qed
  qed
  then have "erase_label name adv 0 k (c # l @ post) = c # erase_label name adv 0 (k - 1) (l @ post)"
    using erase_label_no_occurrence [of name c "l @ post" adv k] by simp
  moreover from Cons.IH [of "k - 1"] Cons.prems
  obtain post' where "erase_label name adv 0 (k - 1) (l @ post) = l @ post'"
    "post' = [] \<or> isspace (hd post')" by auto
  ultimately show ?case by simp
qed

lemma erase_label_keeps:
  assumes name: "\<forall>c\<in>set name. is_word_char c" and l: "CHR '':'' \<notin> set l"
    and post: "post = [] \<or> isspace (hd post)"
    and pre: "pre = [] \<or> last pre = CHR ''\<newline>''"
    and del: "pre = [] \<longrightarrow> del = 0" "CHR ''\<newline>'' \<notin> set (take del pre)"
  shows "\<exists>pre' post'. erase_label name adv del k (pre @ l @ post) = pre' @ l @ post'
           \<and> (pre = [] \<longrightarrow> pre' = []) \<and> (pre \<noteq> [] \<longrightarrow> pre' \<noteq> [] \<and> last pre' = CHR ''\<newline>'')
           \<and> (post' = [] \<or> isspace (hd post'))"
  using pre del
proof (induction pre arbitrary: del k)
  case Nil
  then show ?case using erase_label_line [OF name l post, of adv k] by simp
next
  case (Cons c p)
  have tail: "p = [] \<or> last p = CHR ''\<newline>''"
    using Cons.prems(1) by (cases p) auto
  have keep: "\<exists>pre' post'. c # erase_label name adv 0 k' (p @ l @ post) = pre' @ l @ post'
           \<and> pre' \<noteq> [] \<and> last pre' = CHR ''\<newline>'' \<and> (post' = [] \<or> isspace (hd post'))" for k'
  proof -
    from Cons.IH [of 0 k'] tail
    obtain pre' post' where r: "erase_label name adv 0 k' (p @ l @ post) = pre' @ l @ post'"
      "p = [] \<longrightarrow> pre' = []" "p \<noteq> [] \<longrightarrow> pre' \<noteq> [] \<and> last pre' = CHR ''\<newline>''"
      "post' = [] \<or> isspace (hd post')" by auto
    have "last (c # pre') = CHR ''\<newline>''"
      using r(2,3) Cons.prems(1) by (cases p) auto
    with r(1,4) show ?thesis
      by (intro exI [of _ "c # pre'"] exI [of _ post']) simp
  qed
  show ?case
  proof (cases del)
    case (Suc d)
    with Cons.prems have c: "c \<noteq> CHR ''\<newline>''" and d: "CHR ''\<newline>'' \<notin> set (take d p)"
      by auto
    with Cons.prems(1) have p: "p \<noteq> []" "last p = CHR ''\<newline>''"
      by (cases p; auto)+
    from Cons.IH [of d k] p d
    obtain pre' post' where "erase_label name adv d k (p @ l @ post) = pre' @ l @ post'"
      "pre' \<noteq> [] \<and> last pre' = CHR ''\<newline>''" "post' = [] \<or> isspace (hd post')" by auto
    with Suc show ?thesis by auto
  next
    case 0
    show ?thesis
    proof (cases "k = 0 \<and> prefix (name @ '':'') (c # p @ l @ post)")
      case False
      then have "erase_label name adv 0 k (c # p @ l @ post)
                 = c # erase_label name adv 0 (k - 1) (p @ l @ post)"
        by (cases k) simp_all
      with keep [of "k - 1"] 0 show ?thesis by auto
    next
      case True
      then have occ: "prefix (name @ '':'') (butlast (c # p) @ (CHR ''\<newline>'' # l @ post))"
        using Cons.prems(1) append_butlast_last_id [of "c # p"] by (metis append.assoc append_Cons append_Nil list.distinct(1))
      have nl: "CHR ''\<newline>'' \<notin> set (name @ '':'')"
        using name newline_no_word_char by auto
      from prefix_append_cases [OF occ] nl have inside: "prefix (name @ '':'') (butlast (c # p))"
        by auto
      then have len: "length name < length p"
        using prefix_length_le [OF inside] by (cases p) (simp_all split: if_splits)
      then have p: "p \<noteq> []" "last p = CHR ''\<newline>''"
        using Cons.prems(1) by (cases p; simp)+
      from inside have "prefix (name @ '':'') (c # p)"
        by (metis append_butlast_last_id list.distinct(1) prefix_order.dual_order.trans prefixI)
      then have "prefix (tl (name @ '':'')) p"
        by (cases name) auto
      then have "take (length name) p = tl (name @ '':'')"
        by (auto simp: prefix_def)
      then have "CHR ''\<newline>'' \<notin> set (take (length name) p)"
        using nl by (metis list.sel(2) list.set_sel(2))
      from Cons.IH [of "length name" adv] p this
      obtain pre' post' where "erase_label name adv (length name) adv (p @ l @ post) = pre' @ l @ post'"
        "pre' \<noteq> [] \<and> last pre' = CHR ''\<newline>''" "post' = [] \<or> isspace (hd post')" by auto
      with True 0 show ?thesis by auto
    qed
  qed
qed

lemma span_append:
  assumes "x \<in> set p" and "\<not> P x"
  shows "takeWhile P (p @ X) = takeWhile P p \<and> dropWhile P (p @ X) = dropWhile P p @ X
       \<and> dropWhile P p \<noteq> [] \<and> last (dropWhile P p) = last p
       \<and> length p = length (takeWhile P p) + length (dropWhile P p)"
proof -
  have a: "takeWhile P (p @ X) = takeWhile P p" using assms by (rule takeWhile_append1)
  have b: "dropWhile P (p @ X) = dropWhile P p @ X" using assms by (rule dropWhile_append1)
  have ne: "dropWhile P p \<noteq> []" using assms by (auto simp: dropWhile_eq_Nil_conv)
  have "last (takeWhile P p @ dropWhile P p) = last (dropWhile P p)"
    using ne by (rule last_appendR)
  then have c: "last (dropWhile P p) = last p" by simp
  have d: "length p = length (takeWhile P p) + length (dropWhile P p)"
    by (metis length_append takeWhile_dropWhile_id)
  from a b ne c d show ?thesis by simp
qed

lemma span_all:
  assumes "\<forall>x\<in>set p. P x" and "X \<noteq> []" and "\<not> P (hd X)"
  shows "takeWhile P (p @ X) = p" and "dropWhile P (p @ X) = X"
  using assms by (cases X; simp add: takeWhile_append2 dropWhile_append2)+

lemma match_li_parts:
  assumes "match_li name text = Some (ds, len)"
  shows "prefix ''li'' text"
    and "takeWhile isspace (drop 2 text) \<noteq> []"
    and "ds = takeWhile isdigit (dropWhile isspace (drop 2 text))" and "ds \<noteq> []"
    and "takeWhile isspace (dropWhile isdigit (dropWhile isspace (drop 2 text))) \<noteq> []"
    and "prefix name (dropWhile isspace (dropWhile isdigit (dropWhile isspace (drop 2 text))))"
    and "len = 2 + length (takeWhile isspace (drop 2 text)) + length ds
             + length (takeWhile isspace (dropWhile isdigit (dropWhile isspace (drop 2 text))))
             + length name"
  using assms by (auto simp: match_li_def Let_def split: if_splits)

lemma match_li_before_line:
  assumes m: "match_li name (pre @ X) = Some (ds, len)"
    and pre: "pre \<noteq> []" "last pre = CHR ''\<newline>''"
    and name: "\<forall>c\<in>set name. is_word_char c"
    and X: "X \<noteq> []" "\<not> isspace (hd X)" "\<not> isdigit (hd X)" "\<not> prefix name X"
  shows "0 < len \<and> len < length pre"
proof -
  note parts = match_li_parts [OF m]
  have nl: "isspace (CHR ''\<newline>'')" "\<not> isdigit (CHR ''\<newline>'')"
    by (simp_all add: isspace_def isdigit_def)
  from parts(1) pre obtain p0 where p0: "pre = ''li'' @ p0" "p0 \<noteq> []" "last p0 = CHR ''\<newline>''"
    by (cases pre; cases "tl pre"; cases "tl (tl pre)") (auto split: if_splits)
  then have r0: "drop 2 (pre @ X) = p0 @ X" by simp
  show ?thesis
  proof (cases "\<forall>c\<in>set p0. isspace c")
    case True
    from span_all [OF True X(1,2)] have "dropWhile isspace (drop 2 (pre @ X)) = X"
      unfolding r0 by simp
    with parts(3,4) X(1,3) show ?thesis by (cases X) auto
  next
    case False
    then obtain x where x: "x \<in> set p0" "\<not> isspace x" by auto
    define q1 where "q1 = dropWhile isspace p0"
    note s1 = span_append [where P = isspace and p = p0 and X = X, OF x]
    have q1: "q1 \<noteq> []" "last q1 = CHR ''\<newline>''"
      and r1: "dropWhile isspace (drop 2 (pre @ X)) = q1 @ X"
      and l1: "length p0 = length (takeWhile isspace (drop 2 (pre @ X))) + length q1"
      unfolding q1_def r0 using s1 p0 by simp_all
    have y: "last q1 \<in> set q1" "\<not> isdigit (last q1)"
      using q1 nl last_in_set [of q1] by simp_all
    define q2 where "q2 = dropWhile isdigit q1"
    note s2 = span_append [where P = isdigit and p = q1 and X = X, OF y]
    have q2: "q2 \<noteq> []" "last q2 = CHR ''\<newline>''"
      and r2: "dropWhile isdigit (dropWhile isspace (drop 2 (pre @ X))) = q2 @ X"
      and l2: "length q1 = length ds + length q2"
      unfolding q2_def r1 parts(3) using s2 q1 by simp_all
    show ?thesis
    proof (cases "\<forall>c\<in>set q2. isspace c")
      case True
      from span_all [OF True X(1,2)] parts(6) X(4) show ?thesis
        unfolding r2 by simp
    next
      case False
      then obtain z where z: "z \<in> set q2" "\<not> isspace z" by auto
      define q3 where "q3 = dropWhile isspace q2"
      note s3 = span_append [where P = isspace and p = q2 and X = X, OF z]
      have q3: "q3 \<noteq> []" "last q3 = CHR ''\<newline>''"
        and r3: "dropWhile isspace (dropWhile isdigit (dropWhile isspace (drop 2 (pre @ X)))) = q3 @ X"
        and l3: "length q2 = length (takeWhile isspace (dropWhile isdigit (dropWhile isspace (drop 2 (pre @ X))))) + length q3"
        unfolding q3_def r2 using s3 q2 by simp_all
      have "last q3 \<notin> set name" using q3 name newline_no_word_char by auto
      from prefix_before_last [OF parts(6) [unfolded r3] q3(1) this]
      have "length name < length q3" .
      with parts(7) l1 l2 l3 p0 show ?thesis by simp
    qed
  qed
qed

lemma regex_replace_li_before:
  assumes name: "\<forall>c\<in>set name. is_word_char c"
    and X: "X \<noteq> []" "\<not> isspace (hd X)" "\<not> isdigit (hd X)" "\<not> prefix name X"
    and pre: "pre = [] \<or> last pre = CHR ''\<newline>''"
    and skip: "skip = 0 \<or> skip < length pre"
  shows "\<exists>pre'. regex_replace_li name num skip (pre @ X) = pre' @ regex_replace_li name num 0 X
           \<and> (pre = [] \<longrightarrow> pre' = []) \<and> (pre \<noteq> [] \<longrightarrow> pre' \<noteq> [] \<and> last pre' = CHR ''\<newline>'')"
  using pre skip
proof (induction pre arbitrary: skip)
  case Nil
  then show ?case by simp
next
  case (Cons c p)
  have tail: "p = [] \<or> last p = CHR ''\<newline>''"
    using Cons.prems(1) by (cases p) auto
  show ?case
  proof (cases skip)
    case (Suc k)
    with Cons.prems have k: "k < length p" by simp
    then have p: "p \<noteq> []" by auto
    from Cons.IH [of k] tail k p
    obtain pre' where "regex_replace_li name num k (p @ X) = pre' @ regex_replace_li name num 0 X"
      "pre' \<noteq> [] \<and> last pre' = CHR ''\<newline>''" by auto
    with Suc show ?thesis by auto
  next
    case 0
    show ?thesis
    proof (cases "match_li name (c # p @ X)")
      case None
      from Cons.IH [of 0] tail
      obtain pre' where r: "regex_replace_li name num 0 (p @ X) = pre' @ regex_replace_li name num 0 X"
        "p = [] \<longrightarrow> pre' = []" "p \<noteq> [] \<longrightarrow> pre' \<noteq> [] \<and> last pre' = CHR ''\<newline>''" by auto
      have "last (c # pre') = CHR ''\<newline>''"
        using r(2,3) Cons.prems(1) by (cases p) auto
      with r(1) None 0 show ?thesis
        by (intro exI [of _ "c # pre'"]) simp
    next
      case (Some m)
      obtain ds len where m: "m = (ds, len)" by (cases m)
      from Some m have "match_li name ((c # p) @ X) = Some (ds, len)" by simp
      from match_li_before_line [OF this _ _ name X] Cons.prems(1)
      have len: "0 < len" "len < Suc (length p)" by auto
      then have k: "len - 1 < length p" and p: "p \<noteq> []" by auto
      from Cons.IH [of "len - 1"] tail k p
      obtain pre' where r: "regex_replace_li name num (len - 1) (p @ X) = pre' @ regex_replace_li name num 0 X"
        "pre' \<noteq> [] \<and> last pre' = CHR ''\<newline>''" by auto
      with Some m 0 show ?thesis
        by (intro exI [of _ "''li '' @ ds @ '' '' @ num @ pre'"]) simp
    qed
  qed
qed

lemma regex_replace_li_other:
  assumes "c \<noteq> CHR ''l''"
  shows "regex_replace_li name num 0 (c # cs) = c # regex_replace_li name num 0 cs"
proof -
  from assms have "\<not> prefix ''li'' (c # cs)" by auto
  then have "match_li name (c # cs) = None" by (simp only: match_li_def if_False)
  then show ?thesis by simp
qed

lemma regex_replace_li_others:
  assumes "\<forall>c\<in>set xs. c \<noteq> CHR ''l''"
  shows "regex_replace_li name num 0 (xs @ Y) = xs @ regex_replace_li name num 0 Y"
  using assms by (induction xs) (simp_all add: regex_replace_li_other del: regex_replace_li.simps)

lemma regex_replace_li_word:
  assumes g: "\<forall>c\<in>set g. is_word_char c" and post: "post = [] \<or> isspace (hd post)"
  shows "\<exists>post'. regex_replace_li name num 0 (g @ post) = g @ post'
           \<and> (post' = [] \<or> isspace (hd post'))"
  using g
proof (induction g)
  case Nil
  show ?case
  proof (cases post)
    case Nil then show ?thesis by simp
  next
    case (Cons c cs)
    with post have "isspace c" by simp
    then have "c \<noteq> CHR ''l''" by (auto simp: isspace_def)
    from regex_replace_li_other [OF this] Cons \<open>isspace c\<close> show ?thesis by simp
  qed
next
  case (Cons c g)
  show ?case
  proof (cases "match_li name (c # g @ post)")
    case None
    with Cons show ?thesis by auto
  next
    case (Some m)
    obtain ds len where m: "m = (ds, len)" by (cases m)
    note parts = match_li_parts [OF Some [unfolded m]]
    have sp: "isspace (hd (drop 2 (c # g @ post)))" "drop 2 (c # g @ post) \<noteq> []"
      using parts(2) by (cases "drop 2 (c # g @ post)"; simp split: if_splits)+
    have "c # g = ''li''"
    proof (cases g)
      case Nil
      with parts(1) post show ?thesis by (cases post) (auto simp: isspace_def)
    next
      case g: (Cons b g')
      show ?thesis
      proof (cases g')
        case Nil with g parts(1) show ?thesis by simp
      next
        case (Cons e g'')
        with g sp(1) Cons.prems show ?thesis
          using space_no_word_char [of e] by simp
      qed
    qed
    then have "regex_replace_li name num 0 ((c # g) @ post)
               = (c # g) @ ('' '' @ ds @ '' '' @ num @ regex_replace_li name num (len - 1) (g @ post))"
      using Some m by simp
    then show ?thesis
      by (intro exI [of _ "'' '' @ ds @ '' '' @ num @ regex_replace_li name num (len - 1) (g @ post)"])
         (simp add: isspace_def)
  qed
qed

lemma match_li_reference:
  assumes name: "\<forall>c\<in>set name. is_word_char c"
    and d: "d \<noteq> []" "\<forall>c\<in>set d. isdigit c"
    and g: "g \<noteq> []" "\<forall>c\<in>set g. is_word_char c" "\<not> prefix name g"
    and post: "post = [] \<or> isspace (hd post)"
  shows "match_li name (''li '' @ d @ '' '' @ g @ post) = None"
proof -
  have sp: "isspace (CHR '' '')" "\<not> isdigit (CHR '' '')" by (simp_all add: isspace_def isdigit_def)
  have a: "takeWhile isspace ('' '' @ d @ '' '' @ g @ post) = '' ''"
      "dropWhile isspace ('' '' @ d @ '' '' @ g @ post) = d @ '' '' @ g @ post"
    using d digit_no_space [of "hd d"] sp by (cases d; simp)+
  have b: "dropWhile isdigit (d @ '' '' @ g @ post) = '' '' @ g @ post"
    using d sp by (simp add: dropWhile_append2)
  have c: "dropWhile isspace ('' '' @ g @ post) = g @ post"
    using g space_no_word_char [of "hd g"] sp by (cases g) auto
  have "\<not> prefix name (g @ post)"
  proof
    assume "prefix name (g @ post)"
    from prefix_append_cases [OF this] g(3) have "post \<noteq> [] \<and> hd post \<in> set name" by simp
    with post name show False using space_no_word_char [of "hd post"] by auto
  qed
  then show ?thesis
    using a b c by (simp add: match_li_def Let_def)
qed

lemma regex_replace_li_reference:
  assumes name: "\<forall>c\<in>set name. is_word_char c"
    and d: "d \<noteq> []" "\<forall>c\<in>set d. isdigit c"
    and g: "g \<noteq> []" "\<forall>c\<in>set g. is_word_char c" "\<not> prefix name g"
    and post: "post = [] \<or> isspace (hd post)"
  shows "\<exists>post'. regex_replace_li name num 0 (''li '' @ d @ '' '' @ g @ post)
                   = ''li '' @ d @ '' '' @ g @ post'
           \<and> (post' = [] \<or> isspace (hd post'))"
proof -
  from regex_replace_li_word [OF g(2) post, of name num]
  obtain post' where w: "regex_replace_li name num 0 (g @ post) = g @ post'"
    "post' = [] \<or> isspace (hd post')" by auto
  have "\<not> isdigit (CHR ''l'')" by (simp add: isdigit_def)
  with d(2) have others: "\<forall>c\<in>set (''i '' @ d @ '' ''). c \<noteq> CHR ''l''"
    by auto
  have eq: "''li '' @ d @ '' '' @ g @ post = CHR ''l'' # (''i '' @ d @ '' '') @ g @ post"
    and eq': "''li '' @ d @ '' '' @ g @ post' = CHR ''l'' # (''i '' @ d @ '' '') @ g @ post'"
    by simp_all
  have none: "match_li name (CHR ''l'' # (''i '' @ d @ '' '') @ g @ post) = None"
    using match_li_reference [OF assms] unfolding eq .
  have "regex_replace_li name num 0 (''li '' @ d @ '' '' @ g @ post)
        = ''li '' @ d @ '' '' @ g @ post'"
    unfolding eq eq'
    by (simp only: regex_replace_li.simps none option.case regex_replace_li_others [OF others] w(1))
  with w(2) show ?thesis by blast
qed

lemma regex_replace_li_keeps:
  assumes name: "\<forall>c\<in>set name. is_word_char c" "\<not> prefix name ''li''"
    and d: "d \<noteq> []" "\<forall>c\<in>set d. isdigit c"
    and g: "g \<noteq> []" "\<forall>c\<in>set g. is_word_char c" "\<not> prefix name g"
    and post: "post = [] \<or> isspace (hd post)"
    and pre: "pre = [] \<or> last pre = CHR ''\<newline>''"
  shows "\<exists>pre' post'. regex_replace_li name num 0 (pre @ ''li '' @ d @ '' '' @ g @ post)
                   = pre' @ ''li '' @ d @ '' '' @ g @ post'
           \<and> (pre' = [] \<or> last pre' = CHR ''\<newline>'') \<and> (post' = [] \<or> isspace (hd post'))"
proof -
  let ?X = "''li '' @ d @ '' '' @ g @ post"
  have "\<not> prefix name ?X"
  proof
    assume "prefix name ?X"
    then have "prefix name (''li'' @ ('' '' @ d @ '' '' @ g @ post))" by simp
    from prefix_append_cases [OF this] name(2) have "CHR '' '' \<in> set name" by simp
    with name(1) show False using space_no_word_char [of "CHR '' ''"] by (auto simp: isspace_def)
  qed
  moreover have "?X \<noteq> []" "\<not> isspace (hd ?X)" "\<not> isdigit (hd ?X)"
    by (simp_all add: isspace_def isdigit_def)
  ultimately obtain pre' where p: "regex_replace_li name num 0 (pre @ ?X) = pre' @ regex_replace_li name num 0 ?X"
    "pre = [] \<longrightarrow> pre' = []" "pre \<noteq> [] \<longrightarrow> pre' \<noteq> [] \<and> last pre' = CHR ''\<newline>''"
    using regex_replace_li_before [OF name(1), of ?X pre 0 num] pre by blast
  from regex_replace_li_reference [OF name(1) d g post, of num]
  obtain post' where q: "regex_replace_li name num 0 ?X = ''li '' @ d @ '' '' @ g @ post'"
    "post' = [] \<or> isspace (hd post')" by auto
  from p q show ?thesis by (intro exI [of _ pre'] exI [of _ post']) auto
qed

lemma erase_label_reference:
  assumes name: "\<forall>c\<in>set name. is_word_char c"
    and d: "\<forall>c\<in>set d. isdigit c" and g: "\<forall>c\<in>set g. is_word_char c"
    and post: "post = [] \<or> isspace (hd post)"
    and pre: "pre = [] \<or> last pre = CHR ''\<newline>''"
  shows "\<exists>pre' post'. erase_label name adv 0 0 (pre @ ''li '' @ d @ '' '' @ g @ post)
                   = pre' @ ''li '' @ d @ '' '' @ g @ post'
           \<and> (pre' = [] \<or> last pre' = CHR ''\<newline>'') \<and> (post' = [] \<or> isspace (hd post'))"
proof -
  have "\<not> isdigit (CHR '':'')" by (simp add: isdigit_def)
  with d g colon_no_word_char have "CHR '':'' \<notin> set (''li '' @ d @ '' '' @ g)"
    by auto
  from erase_label_keeps [OF name this post pre, of 0 adv 0]
  obtain pre' post' where
    "erase_label name adv 0 0 (pre @ (''li '' @ d @ '' '' @ g) @ post)
       = pre' @ (''li '' @ d @ '' '' @ g) @ post'"
    "pre = [] \<longrightarrow> pre' = []" "pre \<noteq> [] \<longrightarrow> pre' \<noteq> [] \<and> last pre' = CHR ''\<newline>''"
    "post' = [] \<or> isspace (hd post')" by auto
  then show ?thesis by (intro exI [of _ pre'] exI [of _ post']) auto
qed

lemma replace_labels_keeps:
  assumes labels: "\<forall>name \<in> fst ` set labels.
        (\<forall>c\<in>set name. is_word_char c) \<and> \<not> prefix name ''li'' \<and> \<not> prefix name g"
    and d: "d \<noteq> []" "\<forall>c\<in>set d. isdigit c"
    and g: "g \<noteq> []" "\<forall>c\<in>set g. is_word_char c"
    and post: "post = [] \<or> isspace (hd post)"
    and pre: "pre = [] \<or> last pre = CHR ''\<newline>''"
  shows "\<exists>pre' post'. replace_labels labels (pre @ ''li '' @ d @ '' '' @ g @ post)
                   = pre' @ ''li '' @ d @ '' '' @ g @ post'
           \<and> (pre' = [] \<or> last pre' = CHR ''\<newline>'') \<and> (post' = [] \<or> isspace (hd post'))"
  using labels post pre
proof (induction labels arbitrary: pre post)
  case Nil
  then show ?case by auto
next
  case (Cons label labels)
  obtain name n where label: "label = (name, n)" by (cases label)
  with Cons.prems(1) have name: "\<forall>c\<in>set name. is_word_char c" "\<not> prefix name ''li''" "\<not> prefix name g"
    by auto
  from erase_label_reference [OF name(1) d(2) g(2) Cons.prems(2,3), of "length (to_string n)"]
  obtain pre1 post1 where e: "erase_label name (length (to_string n)) 0 0 (pre @ ''li '' @ d @ '' '' @ g @ post)
        = pre1 @ ''li '' @ d @ '' '' @ g @ post1"
    "pre1 = [] \<or> last pre1 = CHR ''\<newline>''" "post1 = [] \<or> isspace (hd post1)" by blast
  from regex_replace_li_keeps [OF name(1,2) d g(1,2) name(3) e(3,2), of "to_string n"]
  obtain pre2 post2 where r: "regex_replace_li name (to_string n) 0 (pre1 @ ''li '' @ d @ '' '' @ g @ post1)
        = pre2 @ ''li '' @ d @ '' '' @ g @ post2"
    "pre2 = [] \<or> last pre2 = CHR ''\<newline>''" "post2 = [] \<or> isspace (hd post2)" by blast
  have rest: "\<forall>name \<in> fst ` set labels.
        (\<forall>c\<in>set name. is_word_char c) \<and> \<not> prefix name ''li'' \<and> \<not> prefix name g"
    using Cons.prems(1) by simp
  show ?case unfolding label replace_labels.simps e(1) r(1)
    by (rule Cons.IH [OF rest r(3,2)])
qed

lemma line_label_word:
  assumes "line_label line = Some w"
  shows "\<forall>c\<in>set w. is_word_char c"
proof -
  from assms have "w = takeWhile is_word_char line"
    by (simp add: line_label_def Let_def split: if_splits)
  then show ?thesis by (auto dest: set_takeWhileD)
qed

lemma collect_from_names:
  assumes "name \<in> fst ` set (collect_from k lines acc)"
  shows "name \<in> fst ` set acc \<or> (\<exists>line\<in>set lines. line_label line = Some name)"
  using assms
proof (induction lines arbitrary: k acc)
  case Nil
  then show ?case by simp
next
  case (Cons line lines)
  show ?case
  proof (cases "line_label line")
    case None
    with Cons.prems have "name \<in> fst ` set (collect_from (Suc k) lines acc)" by simp
    from Cons.IH [OF this] show ?thesis by auto
  next
    case (Some w)
    with Cons.prems have "name \<in> fst ` set (collect_from (Suc k) lines (AList.update w k acc))"
      by simp
    from Cons.IH [OF this] Some show ?thesis
      by (auto simp: dom_update)
  qed
qed

lemma collect_labels_word:
  assumes "name \<in> fst ` set (collect_labels output)"
  shows "\<forall>c\<in>set name. is_word_char c"
  using collect_from_names [OF assms [unfolded collect_labels_def]] line_label_word
  by auto

text \<open>
  C7, as the code has it. The pass has no failure path and checks no reference. Let code
  generation finish with a stream that has the line \<open>li d g\<close>, where \<open>g\<close> begins with no
  label that the stream defines (and no label is \<open>l\<close> or \<open>li\<close>). Then \<open>transpile\<close> finishes
  with an output text, and the text still has a line that begins with \<open>li d g\<close>, the name
  \<open>g\<close> followed by white space or the end of the text: the reference is neither resolved
  nor reported. The same holds in whatever order the label table is visited.
\<close>

theorem label_resolution_keeps_reference:
  assumes codegen: "transpile_functions (funcDefNodes root)
                      (declare_privileged (privObjNodes root) new_transpiler) = Inr s"
    and stream: "output_string s = pre @ ''li '' @ d @ '' '' @ g @ post"
    and line: "pre = [] \<or> last pre = CHR ''\<newline>''" "post = [] \<or> hd post = CHR ''\<newline>''"
    and d: "d \<noteq> []" "\<forall>c\<in>set d. isdigit c"
    and g: "g \<noteq> []" "\<forall>c\<in>set g. is_word_char c"
    and undefined: "\<forall>name \<in> fst ` set (collect_labels (output_string s)).
                      \<not> prefix name g \<and> \<not> prefix name ''li''"
    and order: "set labels = set (collect_labels (output_string s))"
  shows "(\<exists>pre' post'. transpile root = Inr (pre' @ ''li '' @ d @ '' '' @ g @ post')
            \<and> (pre' = [] \<or> last pre' = CHR ''\<newline>'') \<and> (post' = [] \<or> isspace (hd post')))
       \<and> (\<exists>pre' post'. replace_labels labels (output_string s)
                          = pre' @ ''li '' @ d @ '' '' @ g @ post'
            \<and> (pre' = [] \<or> last pre' = CHR ''\<newline>'') \<and> (post' = [] \<or> isspace (hd post')))"
proof -
  have post: "post = [] \<or> isspace (hd post)"
    using line(2) by (auto simp: isspace_def)
  have names: "\<forall>name \<in> fst ` set (collect_labels (output_string s)).
        (\<forall>c\<in>set name. is_word_char c) \<and> \<not> prefix name ''li'' \<and> \<not> prefix name g"
    using undefined collect_labels_word by blast
  then have names': "\<forall>name \<in> fst ` set labels.
        (\<forall>c\<in>set name. is_word_char c) \<and> \<not> prefix name ''li'' \<and> \<not> prefix name g"
    using order by simp
  have final: "transpile root = Inr (replace_labels (collect_labels (output_string s)) (output_string s))"
    using codegen by (simp add: transpile_def replace_jump_labels_def)
  from replace_labels_keeps [OF names d g post line(1)]
  have a: "\<exists>pre' post'. transpile root = Inr (pre' @ ''li '' @ d @ '' '' @ g @ post')
            \<and> (pre' = [] \<or> last pre' = CHR ''\<newline>'') \<and> (post' = [] \<or> isspace (hd post'))"
    unfolding final stream by blast
  from replace_labels_keeps [OF names' d g post line(1)]
  have b: "\<exists>pre' post'. replace_labels labels (output_string s)
                          = pre' @ ''li '' @ d @ '' '' @ g @ post'
            \<and> (pre' = [] \<or> last pre' = CHR ''\<newline>'') \<and> (post' = [] \<or> isspace (hd post'))"
    unfolding stream .
  from a b show ?thesis by (rule conjI)
qed

theorem label_resolution_keeps_reference_witness:
  "(\<exists>pre' post'. transpile undefined_call_program = Inr (pre' @ ''li 1 g'' @ post')
       \<and> (pre' = [] \<or> last pre' = CHR ''\<newline>'') \<and> (post' = [] \<or> isspace (hd post')))
   \<and> (\<exists>pre' post'. replace_labels [(''f'', 1)]
         ''f:li 5 1\<newline>store 6 6\<newline>add 6 5 6\<newline>add 7 5 7\<newline>store 6 7\<newline>add 6 5 6\<newline>add 7 5 7\<newline>store 6 6\<newline>add 6 5 6\<newline>store 6 7\<newline>mul 6 5 6\<newline>li 0 0\<newline>li 1 g\<newline>jmpEqZ 0 1\<newline>li 5 1\<newline>load 6 7\<newline>sub 6 5 6\<newline>sub 7 5 7\<newline>load 6 6\<newline>sub 6 5 6\<newline>sub 7 5 7\<newline>store 6 6\<newline>sub 6 5 6\<newline>load 6 7\<newline>''
       = pre' @ ''li 1 g'' @ post'
       \<and> (pre' = [] \<or> last pre' = CHR ''\<newline>'') \<and> (post' = [] \<or> isspace (hd post')))"
proof -
  let ?pre = "''f:li 5 1\<newline>store 6 6\<newline>add 6 5 6\<newline>add 7 5 7\<newline>store 6 7\<newline>add 6 5 6\<newline>add 7 5 7\<newline>store 6 6\<newline>add 6 5 6\<newline>store 6 7\<newline>mul 6 5 6\<newline>li 0 0\<newline>''"
  let ?post = "''\<newline>jmpEqZ 0 1\<newline>li 5 1\<newline>load 6 7\<newline>sub 6 5 6\<newline>sub 7 5 7\<newline>load 6 6\<newline>sub 6 5 6\<newline>sub 7 5 7\<newline>store 6 6\<newline>sub 6 5 6\<newline>load 6 7\<newline>''"
  have "\<exists>s. transpile_functions (funcDefNodes undefined_call_program)
               (declare_privileged (privObjNodes undefined_call_program) new_transpiler) = Inr s
           \<and> output_string s = ?pre @ ''li '' @ ''1'' @ '' '' @ ''g'' @ ?post"
    by (simp add: undefined_call_program_def codegen_defs saved_registers)
  then obtain s where codegen: "transpile_functions (funcDefNodes undefined_call_program)
               (declare_privileged (privObjNodes undefined_call_program) new_transpiler) = Inr s"
    and stream: "output_string s = ?pre @ ''li '' @ ''1'' @ '' '' @ ''g'' @ ?post"
    by blast
  have labels: "collect_labels (output_string s) = [(''f'', 1)]"
    unfolding stream by (simp add: label_defs)
  have line: "?pre = [] \<or> last ?pre = CHR ''\<newline>''" "?post = [] \<or> hd ?post = CHR ''\<newline>''"
    by simp_all
  have d: "''1'' \<noteq> []" "\<forall>c\<in>set ''1''. isdigit c"
    and g: "''g'' \<noteq> []" "\<forall>c\<in>set ''g''. is_word_char c"
    by (simp_all add: isdigit_def is_word_char_def)
  have undefined: "\<forall>name \<in> fst ` set (collect_labels (output_string s)).
                      \<not> prefix name ''g'' \<and> \<not> prefix name ''li''"
    unfolding labels by simp
  have order: "set [(''f'', 1::nat)] = set (collect_labels (output_string s))"
    unfolding labels ..
  from label_resolution_keeps_reference [OF codegen stream line d g undefined order]
  show ?thesis unfolding stream by simp
qed

text \<open>
  C7, as the claim has it, fails: \<open>f() { g(); }\<close> calls a function that is defined
  nowhere. The transpiler finishes, and the text it writes still has the line \<open>li 1 g\<close>.
\<close>

theorem undefined_label_goes_unnoticed:
  "transpile undefined_call_program
   = Inr ''li 5 1\<newline>store 6 6\<newline>add 6 5 6\<newline>add 7 5 7\<newline>store 6 7\<newline>add 6 5 6\<newline>add 7 5 7\<newline>store 6 6\<newline>add 6 5 6\<newline>store 6 7\<newline>mul 6 5 6\<newline>li 0 0\<newline>li 1 g\<newline>jmpEqZ 0 1\<newline>li 5 1\<newline>load 6 7\<newline>sub 6 5 6\<newline>sub 7 5 7\<newline>load 6 6\<newline>sub 6 5 6\<newline>sub 7 5 7\<newline>store 6 6\<newline>sub 6 5 6\<newline>load 6 7\<newline>''"
  by (simp add: transpile_def undefined_call_program_def codegen_defs label_defs saved_registers)

end
